theory Spec2Isabelle
  imports Main "HOL-Library.Sublist" "HOL-Library.Word"
begin

section \<open>JavaScript strings\<close>

text \<open>
  A JavaScript string is modelled as a \<^typ>\<open>string\<close>: the list of its code units, for the
  code units U+0000 .. U+00FF. On that alphabet \<open>\s\<close> and \<open>String.prototype.trim\<close> take the
  characters 9 .. 13, 32 and 160 for white space, \<open>\w\<close> is \<open>[A-Za-z0-9_]\<close>, and
  \<open>toLowerCase\<close> adds 32 to \<open>A .. Z\<close> and to the upper-case letters 192 .. 222 (215, the
  multiplication sign, stays).
\<close>

definition is_space :: "char \<Rightarrow> bool" where
  "is_space c = (of_char c \<in> {9, 10, 11, 12, 13, 32, 160 :: nat})"

definition is_word :: "char \<Rightarrow> bool" where
  "is_word c = (let n = of_char c :: nat in
     (48 \<le> n \<and> n \<le> 57) \<or> (65 \<le> n \<and> n \<le> 90) \<or> n = 95 \<or> (97 \<le> n \<and> n \<le> 122))"

definition lower_char :: "char \<Rightarrow> char" where
  "lower_char c = (let n = of_char c :: nat in
     if (65 \<le> n \<and> n \<le> 90) \<or> (192 \<le> n \<and> n \<le> 222 \<and> n \<noteq> 215)
     then char_of (n + 32) else c)"

definition toLowerCase :: "string \<Rightarrow> string" where
  "toLowerCase s = map lower_char s"

definition trim :: "string \<Rightarrow> string" where
  "trim s = rev (dropWhile is_space (rev (dropWhile is_space s)))"


section \<open>The SQLite job queue (class PersistentQueue)\<close>

text \<open>
  One row of the table \<open>queue\<close>. The columns \<open>source_chat_id\<close>, \<open>source_topic_id\<close>,
  \<open>topic_name\<close>, \<open>message_text\<close>, \<open>archived_thread_id\<close> and \<open>post_title\<close> are never read or
  written by the program and are left out. \<open>status\<close> is a TEXT column: the program stores
  whatever string it is handed. Timestamps are seconds; \<open>CURRENT_TIMESTAMP\<close> is the
  argument \<open>now\<close> of each statement.
\<close>

record job =
  job_id :: nat
  url :: string
  status :: string
  added_at :: nat
  started_at :: "nat option"
  completed_at :: "nat option"
  error_message :: "string option"
  retry_count :: nat

text \<open>The table in rowid order, and the AUTOINCREMENT counter.\<close>

record queue_db =
  rows :: "job list"
  next_id :: nat

definition new_job :: "nat \<Rightarrow> string \<Rightarrow> nat \<Rightarrow> job" where
  "new_job i u now =
     \<lparr>job_id = i, url = u, status = ''pending'', added_at = now, started_at = None,
      completed_at = None, error_message = None, retry_count = 0\<rparr>"

text \<open>
  \<open>INSERT OR IGNORE INTO queue (url,status) VALUES (?, 'pending')\<close> under \<open>UNIQUE(url)\<close>:
  the number of rows changed. The \<open>id\<close> column is \<open>AUTOINCREMENT\<close>, and SQLite advances its stored
  counter for an insert that the conflict makes it ignore as well: such an insert leaves
  the rows alone and uses up an id.
\<close>

definition insert_or_ignore :: "nat \<Rightarrow> string \<Rightarrow> queue_db \<Rightarrow> queue_db \<times> nat" where
  "insert_or_ignore now u db =
     (if u \<in> url ` set (rows db) then (db\<lparr>next_id := Suc (next_id db)\<rparr>, 0)
      else (db\<lparr>rows := rows db @ [new_job (next_id db) u now], next_id := Suc (next_id db)\<rparr>, 1))"

text \<open>
  \<open>addJob(url)\<close>. \<open>fault\<close> says that the storage layer rejects the statement: the
  \<open>catch\<close> branch, which also answers \<open>false\<close>.
\<close>

definition addJob :: "bool \<Rightarrow> nat \<Rightarrow> string \<Rightarrow> queue_db \<Rightarrow> queue_db \<times> bool" where
  "addJob fault now u db =
     (if fault then (db, False)
      else (case insert_or_ignore now u db of
              (db', changes) \<Rightarrow> if changes = 0 then (db', False) else (db', True)))"

text \<open>
  \<open>SELECT * FROM queue WHERE status='pending' ORDER BY added_at ASC LIMIT 1\<close>: the pending
  row with the least \<open>added_at\<close>, the first of them in rowid order among equals.
\<close>

fun oldest :: "job \<Rightarrow> job list \<Rightarrow> job" where
  "oldest best [] = best"
| "oldest best (r # rs) = oldest (if added_at r < added_at best then r else best) rs"

definition select_pending :: "queue_db \<Rightarrow> job option" where
  "select_pending db =
     (case filter (\<lambda>r. status r = ''pending'') (rows db) of
        [] \<Rightarrow> None
      | r # rs \<Rightarrow> Some (oldest r rs))"

text \<open>\<open>UPDATE queue SET status='processing', started_at=CURRENT_TIMESTAMP WHERE id=?\<close>\<close>

definition mark_processing :: "nat \<Rightarrow> nat \<Rightarrow> queue_db \<Rightarrow> queue_db" where
  "mark_processing now i db =
     db\<lparr>rows := map (\<lambda>r. if job_id r = i
                           then r\<lparr>status := ''processing'', started_at := Some now\<rparr>
                           else r) (rows db)\<rparr>"

text \<open>
  \<open>getNextJob()\<close> awaits two statements, the SELECT and then the UPDATE, with no
  transaction around them. One call is a small state machine: \<open>AtSelect\<close> before the
  first \<open>await\<close>, \<open>AtUpdate row\<close> between the two, \<open>Finished r\<close> once it has returned \<open>r\<close>.
  Each step is one statement on the shared database.
\<close>

datatype caller = AtSelect | AtUpdate job | Finished "job option"

fun getNextJob_step :: "nat \<Rightarrow> queue_db \<Rightarrow> caller \<Rightarrow> queue_db \<times> caller" where
  "getNextJob_step now db AtSelect =
     (case select_pending db of
        None \<Rightarrow> (db, Finished None)
      | Some row \<Rightarrow> (db, AtUpdate row))"
| "getNextJob_step now db (AtUpdate row) =
     (mark_processing now (job_id row) db, Finished (Some row))"
| "getNextJob_step now db (Finished r) = (db, Finished r)"

text \<open>One call run to its end with nobody else touching the database.\<close>

definition getNextJob :: "nat \<Rightarrow> queue_db \<Rightarrow> queue_db \<times> job option" where
  "getNextJob now db =
     (case select_pending db of
        None \<Rightarrow> (db, None)
      | Some row \<Rightarrow> (mark_processing now (job_id row) db, Some row))"

text \<open>
  Two workers on the same database file. A schedule says which worker's next statement
  the database runs.
\<close>

datatype worker = W1 | W2

fun run_schedule :: "nat \<Rightarrow> worker list \<Rightarrow> queue_db \<times> caller \<times> caller
    \<Rightarrow> queue_db \<times> caller \<times> caller" where
  "run_schedule now [] s = s"
| "run_schedule now (W1 # ws) (db, c1, c2) =
     (case getNextJob_step now db c1 of (db', c1') \<Rightarrow> run_schedule now ws (db', c1', c2))"
| "run_schedule now (W2 # ws) (db, c1, c2) =
     (case getNextJob_step now db c2 of (db', c2') \<Rightarrow> run_schedule now ws (db', c1, c2'))"

text \<open>
  \<open>updateJobStatus(id, status, error = null)\<close>: one of two UPDATE statements, chosen by
  comparing \<open>status\<close> with the string \<open>"completed"\<close>. Neither has a condition on the row's
  present status.
\<close>

definition updateJobStatus :: "nat \<Rightarrow> nat \<Rightarrow> string \<Rightarrow> string option \<Rightarrow> queue_db \<Rightarrow> queue_db" where
  "updateJobStatus now i st err db =
     db\<lparr>rows := map (\<lambda>r. if job_id r = i
                           then (if st = ''completed''
                                 then r\<lparr>status := st, completed_at := Some now, error_message := err\<rparr>
                                 else r\<lparr>status := st, error_message := err\<rparr>)
                           else r) (rows db)\<rparr>"

text \<open>
  The body of the loop of \<open>processQueue(queue)\<close>: claim a job, run the archiver on its
  URL (\<open>archive\<close> is what \<open>runArchive\<close> answers), write the outcome back. \<open>None\<close> is the
  \<open>break\<close>.
\<close>

definition processQueue_iteration :: "(string \<Rightarrow> bool) \<Rightarrow> nat \<Rightarrow> queue_db \<Rightarrow> queue_db option" where
  "processQueue_iteration archive now db =
     (case getNextJob now db of
        (db', None) \<Rightarrow> None
      | (db', Some j) \<Rightarrow>
          (let ok = archive (url j)
           in Some (updateJobStatus now (job_id j) (if ok then ''complete'' else ''failed'')
                      (if ok then None else Some ''Archive failed'') db')))"

text \<open>
  The loop itself, \<open>while (true)\<close>. It ends: every turn takes one row out of \<open>pending\<close> and
  puts none in.
\<close>

function processQueue :: "(string \<Rightarrow> bool) \<Rightarrow> nat \<Rightarrow> queue_db \<Rightarrow> queue_db" where
  "processQueue archive now db =
     (case processQueue_iteration archive now db of
        None \<Rightarrow> db
      | Some db' \<Rightarrow> processQueue archive (Suc now) db')"
  by pat_completeness auto
termination
proof (relation "measure (\<lambda>(archive, now, db).
    length (filter (\<lambda>r. status r = ''pending'') (rows db)))")
  show "wf (measure (\<lambda>(archive, now, db).
    length (filter (\<lambda>r. status r = ''pending'') (rows db))))"
    by simp
next
  fix archive :: "string \<Rightarrow> bool" and now :: nat and db db' :: queue_db
  assume it: "processQueue_iteration archive now db = Some db'"
  let ?pending = "\<lambda>r. status r = ''pending''"
  from it obtain j where sel: "select_pending db = Some j"
    by (auto simp: processQueue_iteration_def getNextJob_def split: option.splits)
  define st where "st = (if archive (url j) then ''complete'' else ''failed'')"
  define err where "err = (if archive (url j) then None else Some ''Archive failed'')"
  have np: "st \<noteq> ''pending''" by (simp add: st_def)
  have db': "db' = updateJobStatus now (job_id j) st err (mark_processing now (job_id j) db)"
    using it sel by (simp add: processQueue_iteration_def getNextJob_def st_def err_def Let_def)
  from sel obtain b rs where f: "filter ?pending (rows db) = b # rs" and j: "j = oldest b rs"
    by (auto simp: select_pending_def split: list.splits)
  have mem: "oldest b' rs' \<in> set (b' # rs')" for b' rs'
    by (induction rs' arbitrary: b') (auto split: if_splits)
  have jin: "j \<in> set (filter ?pending (rows db))"
    unfolding f j by (rule mem)
  have step: "filter ?pending
        (map (\<lambda>r. if job_id r = job_id j
                   then (if st = ''completed''
                         then r\<lparr>status := st, completed_at := Some now, error_message := err\<rparr>
                         else r\<lparr>status := st, error_message := err\<rparr>)
                   else r)
           (map (\<lambda>r. if job_id r = job_id j
                      then r\<lparr>status := ''processing'', started_at := Some now\<rparr>
                      else r) xs))
      = filter (\<lambda>r. job_id r \<noteq> job_id j) (filter ?pending xs)" for xs
    using np by (induction xs) auto
  have "filter ?pending (rows db')
      = filter (\<lambda>r. job_id r \<noteq> job_id j) (filter ?pending (rows db))"
    using step [of "rows db"] unfolding db'
    by (simp add: updateJobStatus_def mark_processing_def)
  moreover have "length (filter (\<lambda>r. job_id r \<noteq> job_id j) (filter ?pending (rows db)))
      < length (filter ?pending (rows db))"
    using jin by (intro length_filter_less [of j]) simp_all
  ultimately show "((archive, Suc now, db'), (archive, now, db))
      \<in> measure (\<lambda>(archive, now, db). length (filter ?pending (rows db)))"
    by simp
qed

declare processQueue.simps [simp del]

text \<open>The row of a job, by id.\<close>

definition job_row :: "nat \<Rightarrow> queue_db \<Rightarrow> job option" where
  "job_row i db = find (\<lambda>r. job_id r = i) (rows db)"

text \<open>
  What may happen to the table between two submissions: any of the three operations, with
  any arguments.
\<close>

datatype queue_op =
    OpAddJob bool nat string
  | OpGetNextJob nat
  | OpUpdateJobStatus nat nat string "string option"

fun apply_op :: "queue_op \<Rightarrow> queue_db \<Rightarrow> queue_db" where
  "apply_op (OpAddJob fault now u) db = fst (addJob fault now u db)"
| "apply_op (OpGetNextJob now) db = fst (getNextJob now db)"
| "apply_op (OpUpdateJobStatus now i st err) db = updateJobStatus now i st err db"

fun apply_ops :: "queue_op list \<Rightarrow> queue_db \<Rightarrow> queue_db" where
  "apply_ops [] db = db"
| "apply_ops (a # as) db = apply_ops as (apply_op a db)"

definition url_count :: "string \<Rightarrow> queue_db \<Rightarrow> nat" where
  "url_count u db = length (filter (\<lambda>r. url r = u) (rows db))"

text \<open>An empty queue, a queue with one pending job, and one whose job is finished.\<close>

definition db_empty :: queue_db where
  "db_empty = \<lparr>rows = [], next_id = 1\<rparr>"

definition db_one_pending :: queue_db where
  "db_one_pending = \<lparr>rows = [new_job 1 ''https://example.com/a'' 100], next_id = 2\<rparr>"

definition db_one_processing :: queue_db where
  "db_one_processing =
     \<lparr>rows = [(new_job 1 ''https://example.com/a'' 100)
                 \<lparr>status := ''processing'', started_at := Some 110\<rparr>],
      next_id = 2\<rparr>"

definition db_one_completed :: queue_db where
  "db_one_completed =
     \<lparr>rows = [(new_job 1 ''https://example.com/a'' 100)
                 \<lparr>status := ''completed'', started_at := Some 110, completed_at := Some 120\<rparr>],
      next_id = 2\<rparr>"


section \<open>The archive run (runArchive, saveArchive)\<close>

text \<open>
  The awaited calls of \<open>runArchive\<close> and \<open>saveArchive\<close> on the page and the file system,
  one constructor per call. \<open>page.content()\<close> is called twice, for the constant \<open>rawHtml\<close>
  and for the variable \<open>modifiedHtml\<close>; \<open>page.evaluate\<close> with the layout fix ("Fix ThePrint
  white PDF/screenshot issue") is \<open>FixLayout\<close>, with the scroll-and-settle promise
  \<open>SettleScroll\<close>, with the anti-clip patch \<open>AntiClipPatch\<close>. \<open>sleep\<close> and \<open>console.log\<close> touch
  neither the page nor the disk and are left out, as are \<open>puppeteer.launch\<close> and
  \<open>browser.close\<close>, which stand outside the \<open>try\<close> block.
\<close>

datatype html_var = RawHtml | ModifiedHtml

datatype artifact = PageRawHtml | PageHtml | MetaJson

datatype op =
    NewPage | SetUserAgent | SetExtraHTTPHeaders | SetViewport | Goto string
  | ClickExpandableContent | ClickReadMore | ClickBottomFooterButton | RemoveAllGoogleAds
  | Mkdir | PageContent html_var | WriteFile artifact
  | DismissOneSignalSlidedown | RemoveOneSignalBell | ClickPopups | TriggerLazyLoadScroll
  | FixLayout | SettleScroll | WaitForNetworkIdle | Screenshot | AntiClipPatch
  | EmulateMediaType | Pdf | ReadMetrics | ReadUserAgent

text \<open>
  A statement is \<open>await f(...)\<close>, whose rejection leaves the function, or a call whose
  failure is caught on the spot: \<open>page.waitForNetworkIdle(...).catch(() => {})\<close>, and
  \<open>clickPopups\<close>, whose two loops wrap each frame and each click in \<open>try/catch\<close>.
\<close>

datatype stmt = Await op | Guarded op

fun stmt_op :: "stmt \<Rightarrow> op" where
  "stmt_op (Await a) = a"
| "stmt_op (Guarded a) = a"

text \<open>
  Running a statement list. Whether a call fails is the browser's and the disk's business:
  \<open>rejects pc a\<close> says that the call \<open>a\<close> made at position \<open>pc\<close> of the run throws. The result
  is whether the list ran to its end, and the calls started, in order (the last one is the
  one that threw, when one did).
\<close>

fun exec :: "(nat \<Rightarrow> op \<Rightarrow> bool) \<Rightarrow> nat \<Rightarrow> stmt list \<Rightarrow> bool \<times> op list" where
  "exec rejects pc [] = (True, [])"
| "exec rejects pc (Await a # rest) =
     (if rejects pc a then (False, [a])
      else (case exec rejects (Suc pc) rest of (ok, tr) \<Rightarrow> (ok, a # tr)))"
| "exec rejects pc (Guarded a # rest) =
     (case exec rejects (Suc pc) rest of (ok, tr) \<Rightarrow> (ok, a # tr))"

text \<open>\<open>saveArchive(page, url)\<close>, statement by statement.\<close>

definition saveArchive_body :: "stmt list" where
  "saveArchive_body =
     [Await Mkdir,
      Await (PageContent RawHtml), Await (WriteFile PageRawHtml),
      Await DismissOneSignalSlidedown, Await RemoveOneSignalBell, Guarded ClickPopups,
      Await TriggerLazyLoadScroll,
      Await (PageContent ModifiedHtml),
      Await ClickBottomFooterButton, Await RemoveAllGoogleAds,
      Await (WriteFile PageHtml),
      Await ClickExpandableContent,
      Await FixLayout, Await SettleScroll, Guarded WaitForNetworkIdle,
      Await Screenshot,
      Await TriggerLazyLoadScroll, Guarded WaitForNetworkIdle,
      Await AntiClipPatch, Await FixLayout, Await SetViewport, Await EmulateMediaType,
      Await Pdf,
      Await ReadMetrics, Await ReadUserAgent, Await (WriteFile MetaJson)]"

text \<open>The \<open>try\<close> block of \<open>runArchive(url)\<close>: it ends in the call of \<open>saveArchive\<close>.\<close>

definition runArchive_body :: "string \<Rightarrow> stmt list" where
  "runArchive_body u =
     [Await NewPage, Await SetUserAgent, Await SetExtraHTTPHeaders, Await SetViewport,
      Await (Goto u),
      Await ClickExpandableContent, Await ClickReadMore,
      Await ClickBottomFooterButton, Await RemoveAllGoogleAds]
     @ saveArchive_body"

text \<open>
  \<open>runArchive(url)\<close>: \<open>true\<close> when the block ran to its end, \<open>false\<close> from the \<open>catch\<close>;
  with it, the calls made.
\<close>

definition runArchive :: "(nat \<Rightarrow> op \<Rightarrow> bool) \<Rightarrow> string \<Rightarrow> bool \<times> op list" where
  "runArchive rejects u = exec rejects 0 (runArchive_body u)"

definition saveArchive :: "(nat \<Rightarrow> op \<Rightarrow> bool) \<Rightarrow> nat \<Rightarrow> bool \<times> op list" where
  "saveArchive rejects pc = exec rejects pc saveArchive_body"

text \<open>
  Two browsers: one where no call fails, one where \<open>page.evaluate\<close> inside
  \<open>removeAllGoogleAds\<close> throws; and a third where only the call of \<open>removeAllGoogleAds\<close>
  inside \<open>saveArchive\<close> (position 18 of the run) throws.
\<close>

definition never_rejects :: "nat \<Rightarrow> op \<Rightarrow> bool" where
  "never_rejects pc a = False"

definition ad_removal_rejects :: "nat \<Rightarrow> op \<Rightarrow> bool" where
  "ad_removal_rejects pc a = (a = RemoveAllGoogleAds)"

definition late_ad_removal_rejects :: "nat \<Rightarrow> op \<Rightarrow> bool" where
  "late_ad_removal_rejects pc a = (a = RemoveAllGoogleAds \<and> pc = 18)"

text \<open>What the worker's \<open>runArchive(job.url)\<close> answers in a given browser.\<close>

definition archive_outcome :: "(nat \<Rightarrow> op \<Rightarrow> bool) \<Rightarrow> string \<Rightarrow> bool" where
  "archive_outcome rejects u = fst (runArchive rejects u)"

text \<open>The status and the two columns a terminal transition may write, row by row.\<close>

definition outcome_columns :: "queue_db option \<Rightarrow> (string \<times> nat option \<times> string option) list option" where
  "outcome_columns d = map_option (\<lambda>db. map (\<lambda>r. (status r, completed_at r, error_message r)) (rows db)) d"

text \<open>
  The calls that change the document (dismissal, ad removal, expansion clicks, style
  fixes), the stages of the sanitization pipeline (those and the lazy-load scroll), and
  the four captures.
\<close>

fun is_dom_mutation :: "op \<Rightarrow> bool" where
  "is_dom_mutation ClickExpandableContent = True"
| "is_dom_mutation ClickReadMore = True"
| "is_dom_mutation ClickBottomFooterButton = True"
| "is_dom_mutation RemoveAllGoogleAds = True"
| "is_dom_mutation DismissOneSignalSlidedown = True"
| "is_dom_mutation RemoveOneSignalBell = True"
| "is_dom_mutation ClickPopups = True"
| "is_dom_mutation FixLayout = True"
| "is_dom_mutation AntiClipPatch = True"
| "is_dom_mutation _ = False"

definition is_sanitization :: "op \<Rightarrow> bool" where
  "is_sanitization a = (is_dom_mutation a \<or> a = TriggerLazyLoadScroll)"

definition is_capture :: "op \<Rightarrow> bool" where
  "is_capture a = (a \<in> {PageContent RawHtml, PageContent ModifiedHtml, Screenshot, Pdf})"

text \<open>
  \<open>none_before P x tr\<close>: \<open>x\<close> happens in \<open>tr\<close> and no call with \<open>P\<close> happens before it.
  \<open>none_after P x tr\<close>: \<open>x\<close> happens and no call with \<open>P\<close> happens after it.
  \<open>all_before xs x tr\<close>: \<open>x\<close> happens and every call of \<open>xs\<close> has happened before it.
\<close>

definition none_before :: "(op \<Rightarrow> bool) \<Rightarrow> op \<Rightarrow> op list \<Rightarrow> bool" where
  "none_before P x tr = (x \<in> set tr \<and> filter P (takeWhile (\<lambda>a. a \<noteq> x) tr) = [])"

definition none_after :: "(op \<Rightarrow> bool) \<Rightarrow> op \<Rightarrow> op list \<Rightarrow> bool" where
  "none_after P x tr = (x \<in> set tr \<and> filter P (tl (dropWhile (\<lambda>a. a \<noteq> x) tr)) = [])"

definition all_before :: "op list \<Rightarrow> op \<Rightarrow> op list \<Rightarrow> bool" where
  "all_before xs x tr = (x \<in> set tr \<and> list_all (\<lambda>a. a \<in> set (takeWhile (\<lambda>b. b \<noteq> x) tr)) xs)"

text \<open>
  The ordering as the specification words it: the raw HTML before any DOM mutation, and
  the sanitized HTML, the screenshot and the PDF each after the sanitization pipeline has
  finished, in that order.
\<close>

definition spec_capture_order :: "op list \<Rightarrow> bool" where
  "spec_capture_order tr =
     (none_before is_dom_mutation (PageContent RawHtml) tr
      \<and> none_after is_sanitization (PageContent ModifiedHtml) tr
      \<and> none_after is_sanitization Screenshot tr
      \<and> none_after is_sanitization Pdf tr
      \<and> filter is_capture tr = [PageContent RawHtml, PageContent ModifiedHtml, Screenshot, Pdf])"


section \<open>One popup pass (clickPopups, clickElements)\<close>

text \<open>
  What the matcher hands back for an element: \<open>{tag, text, x, y}\<close>; the coordinates are
  carried along and never computed with.
\<close>

record matched_element =
  el_tag :: string
  el_text :: string
  el_x :: int
  el_y :: int

text \<open>The key of the \<open>seen\<close> set: \<open>(el.text || "").trim().toLowerCase()\<close>.\<close>

definition dedupe_key :: "matched_element \<Rightarrow> string" where
  "dedupe_key el = toLowerCase (trim (el_text el))"

text \<open>The loop "Remove duplicates by text", with its two accumulators.\<close>

fun dedupe_loop :: "matched_element list \<Rightarrow> string set \<Rightarrow> matched_element list
    \<Rightarrow> matched_element list" where
  "dedupe_loop [] seen unique = unique"
| "dedupe_loop (el # els) seen unique =
     (let key = dedupe_key el
      in if key \<notin> seen \<and> key \<noteq> []
         then dedupe_loop els (insert key seen) (unique @ [el])
         else dedupe_loop els seen unique)"

text \<open>
  What \<open>clickElements\<close> reads of the page: the nodes that
  \<open>document.querySelectorAll("button, a, input, div[role='button']")\<close> returns for the main
  document, in document order, each with its \<open>innerText\<close> and its \<open>value\<close> (empty when it
  has none). \<open>node_id\<close> tells the nodes apart.
\<close>

record dom_node =
  node_id :: nat
  node_innerText :: string
  node_value :: string

text \<open>\<open>b.innerText || b.value || ""\<close>\<close>

definition node_text :: "dom_node \<Rightarrow> string" where
  "node_text b = (if node_innerText b \<noteq> [] then node_innerText b else node_value b)"

text \<open>
  The node the synthetic events go to: the first candidate whose trimmed, lower-cased
  text is the lower-cased text of the matched element, if there is one.
\<close>

definition click_target :: "dom_node list \<Rightarrow> string \<Rightarrow> dom_node option" where
  "click_target candidates text =
     find (\<lambda>b. toLowerCase (trim (node_text b)) = toLowerCase text) candidates"

text \<open>
  \<open>clickElements(page, elements)\<close>. An anchor with more than 15 characters of text is
  skipped. For any other element the navigation blocker is installed and the events
  \<open>pointerdown\<close>, \<open>mousedown\<close>, \<open>pointerup\<close>, \<open>mouseup\<close>, \<open>click\<close> are dispatched to the
  target found by text in the main document; nothing is dispatched when there is no such
  node. Each element is handled inside \<open>try/catch\<close>: \<open>rejects el\<close> says that a call into the
  page made for \<open>el\<close> rejects before the events are dispatched, and then the loop goes on
  to the next element. \<open>react target page\<close> is the candidate list after the page has
  handled the events sent to \<open>target\<close>. The result is the page at the end and the nodes the
  events were dispatched to, in order.
\<close>

fun clickElements :: "(matched_element \<Rightarrow> bool) \<Rightarrow> (dom_node \<Rightarrow> dom_node list \<Rightarrow> dom_node list)
    \<Rightarrow> dom_node list \<Rightarrow> matched_element list \<Rightarrow> dom_node list \<times> dom_node list" where
  "clickElements rejects react page [] = (page, [])"
| "clickElements rejects react page (el # els) =
     (if el_tag el = ''a'' \<and> length (el_text el) > 15
      then clickElements rejects react page els
      else if rejects el
      then clickElements rejects react page els
      else (case click_target page (el_text el) of
              None \<Rightarrow> clickElements rejects react page els
            | Some target \<Rightarrow>
                (case clickElements rejects react (react target page) els of
                   (page', clicked) \<Rightarrow> (page', target # clicked))))"

text \<open>
  \<open>clickPopups(page)\<close>, given what \<open>findAllMatchingElements\<close> found on the page: the page
  afterwards and the nodes clicked in this pass.
\<close>

definition clickPopups :: "(matched_element \<Rightarrow> bool) \<Rightarrow> (dom_node \<Rightarrow> dom_node list \<Rightarrow> dom_node list)
    \<Rightarrow> dom_node list \<Rightarrow> matched_element list \<Rightarrow> dom_node list \<times> dom_node list" where
  "clickPopups rejects react page matches =
     (if matches = [] then (page, [])
      else (case dedupe_loop matches {} [] of
              [] \<Rightarrow> (page, [])
            | first # rest \<Rightarrow> clickElements rejects react page [first]))"


text \<open>
  Three matches in discovery order: two with the same text up to case at different
  places, and a short anchor. A fourth, an anchor of 17 characters.
\<close>

definition el_close_1 :: matched_element where
  "el_close_1 = \<lparr>el_tag = ''button'', el_text = ''Close'', el_x = 100, el_y = 40\<rparr>"

definition el_close_2 :: matched_element where
  "el_close_2 = \<lparr>el_tag = ''div'', el_text = ''CLOSE'', el_x = 700, el_y = 900\<rparr>"

definition el_no_thanks :: matched_element where
  "el_no_thanks = \<lparr>el_tag = ''a'', el_text = ''No thanks'', el_x = 300, el_y = 520\<rparr>"

definition el_close_window :: matched_element where
  "el_close_window = \<lparr>el_tag = ''a'', el_text = ''Close this window'', el_x = 500, el_y = 60\<rparr>"

text \<open>
  A main document with four candidates: an input whose value is "close", the button
  "Close" with white space around its text, the anchor "No thanks" and the anchor
  "Close this window". A page where no call rejects, and one whose handlers remove the
  node that was clicked.
\<close>

definition sample_page :: "dom_node list" where
  "sample_page =
     [\<lparr>node_id = 1, node_innerText = [], node_value = ''close''\<rparr>,
      \<lparr>node_id = 2, node_innerText = '' Close '', node_value = []\<rparr>,
      \<lparr>node_id = 3, node_innerText = ''No thanks'', node_value = []\<rparr>,
      \<lparr>node_id = 4, node_innerText = ''Close this window'', node_value = []\<rparr>]"

definition no_call_rejects :: "matched_element \<Rightarrow> bool" where
  "no_call_rejects el = False"

definition remove_clicked :: "dom_node \<Rightarrow> dom_node list \<Rightarrow> dom_node list" where
  "remove_clicked target page = filter (\<lambda>b. node_id b \<noteq> node_id target) page"


section \<open>The archive identity (normalizeUrl, slugifyTitle, md5Hash, makeArchiveId)\<close>

text \<open>
  A parsed URL, as far as \<open>normalizeUrl\<close> looks at it: everything up to the end of the path
  (\<open>core\<close>), whether the path is opaque, the query and the fragment (\<open>None\<close> is null).
\<close>

record parsed_url =
  core :: string
  opaque_path :: bool
  query :: "string option"
  fragment :: "string option"

text \<open>\<open>u.toString()\<close>, the serialization.\<close>

definition href :: "parsed_url \<Rightarrow> string" where
  "href p = core p
     @ (case query p of None \<Rightarrow> [] | Some q \<Rightarrow> CHR ''?'' # q)
     @ (case fragment p of None \<Rightarrow> [] | Some f \<Rightarrow> CHR ''#'' # f)"

text \<open>
  The setters \<open>u.hash = ""\<close> and \<open>u.search = ""\<close>: the empty string makes the component
  null, and a URL with an opaque path that is left with neither query nor fragment loses
  the trailing spaces of its path.
\<close>

definition strip_opaque :: "parsed_url \<Rightarrow> parsed_url" where
  "strip_opaque p =
     (if opaque_path p \<and> query p = None \<and> fragment p = None
      then p\<lparr>core := rev (dropWhile (\<lambda>c. c = CHR '' '') (rev (core p)))\<rparr>
      else p)"

definition set_hash_empty :: "parsed_url \<Rightarrow> parsed_url" where
  "set_hash_empty p = strip_opaque (p\<lparr>fragment := None\<rparr>)"

definition set_search_empty :: "parsed_url \<Rightarrow> parsed_url" where
  "set_search_empty p = strip_opaque (p\<lparr>query := None\<rparr>)"

text \<open>
  \<open>new URL(s)\<close> throws a TypeError on a string that does not parse. The parser itself
  belongs to the platform and is a parameter \<open>parse\<close> of everything below.
\<close>

datatype js_error = TypeError

definition new_URL :: "(string \<Rightarrow> parsed_url option) \<Rightarrow> string \<Rightarrow> js_error + parsed_url" where
  "new_URL parse s = (case parse s of None \<Rightarrow> Inl TypeError | Some p \<Rightarrow> Inr p)"

text \<open>The \<open>try\<close> block of \<open>normalizeUrl(rawUrl)\<close>, and the function with its \<open>catch\<close>.\<close>

definition normalizeUrl_try :: "(string \<Rightarrow> parsed_url option) \<Rightarrow> string \<Rightarrow> js_error + string" where
  "normalizeUrl_try parse rawUrl =
     (case new_URL parse (trim rawUrl) of
        Inl e \<Rightarrow> Inl e
      | Inr u \<Rightarrow> Inr (href (set_search_empty (set_hash_empty u))))"

definition normalizeUrl :: "(string \<Rightarrow> parsed_url option) \<Rightarrow> string \<Rightarrow> string" where
  "normalizeUrl parse rawUrl =
     (case normalizeUrl_try parse rawUrl of
        Inr r \<Rightarrow> r
      | Inl e \<Rightarrow> trim rawUrl)"

text \<open>
  \<open>slugifyTitle(title)\<close>: \<open>replace(/[^a-z0-9\-]+/g, "-")\<close> puts one dash for each maximal run
  of other characters (\<open>in_run\<close> says that the run's dash has been written), and
  \<open>replace(/^-+|-+$/g, "")\<close> drops the dashes at both ends.
\<close>

definition slug_char :: "char \<Rightarrow> bool" where
  "slug_char c = (let n = of_char c :: nat in
     (97 \<le> n \<and> n \<le> 122) \<or> (48 \<le> n \<and> n \<le> 57) \<or> n = 45)"

fun replace_runs :: "bool \<Rightarrow> string \<Rightarrow> string" where
  "replace_runs in_run [] = []"
| "replace_runs in_run (c # cs) =
     (if slug_char c then c # replace_runs False cs
      else if in_run then replace_runs True cs
      else CHR ''-'' # replace_runs True cs)"

definition strip_dashes :: "string \<Rightarrow> string" where
  "strip_dashes s = rev (dropWhile (\<lambda>c. c = CHR ''-'') (rev (dropWhile (\<lambda>c. c = CHR ''-'') s)))"

definition slugifyTitle :: "string \<Rightarrow> string" where
  "slugifyTitle title =
     (if title = [] then ''untitled''
      else strip_dashes (replace_runs False (toLowerCase title)))"

text \<open>
  \<open>md5Hash(input, length)\<close>: the first \<open>length\<close> characters of the digest in hexadecimal.
  MD5 itself is the platform's (\<open>crypto\<close>): a parameter \<open>md5\<close>, a function into 128 bits.
\<close>

definition hex_digit :: "nat \<Rightarrow> char" where
  "hex_digit n = ''0123456789abcdef'' ! (n mod 16)"

definition digest_hex :: "128 word \<Rightarrow> string" where
  "digest_hex w = map (\<lambda>i. hex_digit (unat w div 16 ^ (31 - i))) [0..<32]"

definition md5Hash :: "(string \<Rightarrow> 128 word) \<Rightarrow> string \<Rightarrow> nat \<Rightarrow> string" where
  "md5Hash md5 input len = take len (digest_hex (md5 input))"

text \<open>\<open>makeArchiveId(url, title)\<close>\<close>

definition makeArchiveId :: "(string \<Rightarrow> parsed_url option) \<Rightarrow> (string \<Rightarrow> 128 word)
    \<Rightarrow> string \<Rightarrow> string \<Rightarrow> string" where
  "makeArchiveId parse md5 u title =
     (let normalized = normalizeUrl parse u;
          urlHash = md5Hash md5 normalized 8;
          slug = slugifyTitle title
      in slug @ ''_'' @ urlHash)"

text \<open>
  What the theorems on \<open>normalizeUrl\<close> ask of the platform's parser: a URL printed without
  query and fragment has no white space at its ends and parses back to itself.
\<close>

definition url_roundtrip :: "(string \<Rightarrow> parsed_url option) \<Rightarrow> bool" where
  "url_roundtrip parse =
     (\<forall>s p. parse s = Some p \<longrightarrow>
        trim (href (set_search_empty (set_hash_empty p))) = href (set_search_empty (set_hash_empty p))
        \<and> parse (href (set_search_empty (set_hash_empty p))) = Some (set_search_empty (set_hash_empty p)))"


text \<open>
  A small parser with that property, for examples: it accepts the strings that begin with
  \<open>http://\<close> and hold no white space, and cuts them at the first \<open>?\<close> and \<open>#\<close>. And a digest
  function for examples, constant.
\<close>

definition simple_ok :: "string \<Rightarrow> bool" where
  "simple_ok s = (prefix ''http://'' s \<and> filter is_space s = [])"

definition simple_parse :: "string \<Rightarrow> parsed_url option" where
  "simple_parse s =
     (if simple_ok s
      then (let rest = dropWhile (\<lambda>c. c \<noteq> CHR ''?'' \<and> c \<noteq> CHR ''#'') s
            in Some \<lparr>core = takeWhile (\<lambda>c. c \<noteq> CHR ''?'' \<and> c \<noteq> CHR ''#'') s,
                     opaque_path = False,
                     query = (case rest of
                                [] \<Rightarrow> None
                              | c # r \<Rightarrow> if c = CHR ''?''
                                         then Some (takeWhile (\<lambda>d. d \<noteq> CHR ''#'') r) else None),
                     fragment = (case dropWhile (\<lambda>d. d \<noteq> CHR ''#'') rest of
                                   [] \<Rightarrow> None
                                 | c # r \<Rightarrow> Some r)\<rparr>)
      else None)"

definition sample_digest :: "string \<Rightarrow> 128 word" where
  "sample_digest s = 0xd41d8cd98f00b204e9800998ecf8427e"


section \<open>The element matcher (findMatchingClickableElements)\<close>

text \<open>
  What the scan reads of a DOM element: its tag name, \<open>textContent\<close>, \<open>value\<close> (empty when
  the element has none), whether it has an \<open>onclick\<close> attribute, its \<open>role\<close> attribute, its
  \<open>tabIndex\<close>, and the centre of its bounding box in page coordinates.
\<close>

record element =
  tagName :: string
  textContent :: string
  el_value :: string
  has_onclick :: bool
  el_role :: "string option"
  tabIndex :: int
  center_x :: int
  center_y :: int

definition isClickable :: "element \<Rightarrow> bool" where
  "isClickable el =
     (let tag = toLowerCase (tagName el)
      in tag \<in> set [''button'', ''a'', ''input'']
         \<or> has_onclick el \<or> el_role el = Some ''button'' \<or> tabIndex el \<ge> 0)"

text \<open>\<open>(el.textContent || el.value || "").trim()\<close>\<close>

definition element_text :: "element \<Rightarrow> string" where
  "element_text el = trim (if textContent el \<noteq> [] then textContent el else el_value el)"

text \<open>
  \<open>normalize\<close>: lower case, the curly quotes made straight (they lie outside the alphabet
  modelled here, so this step only ever meets the straight one), every character that is
  neither a word character, white space nor an apostrophe replaced by a space, trimmed.
\<close>

definition apostrophe :: char where
  "apostrophe = CHR 0x27"

definition normalize :: "string \<Rightarrow> string" where
  "normalize s =
     trim (map (\<lambda>c. if is_word c \<or> is_space c \<or> c = apostrophe then c else CHR '' '')
            (map (\<lambda>c. if c = apostrophe then apostrophe else c) (toLowerCase s)))"

text \<open>
  \<open>txt.split(/\s+/)\<close>: the pieces between the maximal runs of white space; a run at the
  start or the end leaves an empty piece there, and the empty string has one empty piece.
\<close>

fun split_ws :: "string \<Rightarrow> string list" where
  "split_ws [] = [[]]"
| "split_ws (c # cs) =
     (if is_space c
      then (if cs \<noteq> [] \<and> is_space (hd cs) then split_ws cs else [] # split_ws cs)
      else (case split_ws cs of [] \<Rightarrow> [[c]] | w # ws \<Rightarrow> (c # w) # ws))"

text \<open>
  \<open>w.localeCompare(t, undefined, {sensitivity: "accent"}) === 0\<close> is the platform's
  collation in the locale of the browser: it is a parameter \<open>collate\<close> of the matcher,
  \<open>collate w t\<close> saying that the comparison returns 0.
\<close>

text \<open>
  The regular expression \<open>new RegExp(`\\b${t.replace(/\s+/g, "\\s+")}\\b`, "i")\<close>. Between
  the two \<open>\b\<close> stands the term, each maximal run of white space in it turned into \<open>\s+\<close>
  (\<open>Gap\<close>), every other character standing for itself (\<open>Lit\<close>). That reading holds for a
  term without regular-expression syntax characters; for any other term the pattern is
  not modelled (\<open>None\<close>).
\<close>

datatype pat = Lit char | Gap

definition is_regex_syntax :: "char \<Rightarrow> bool" where
  "is_regex_syntax c = (c \<in> set (CHR 0x5C # ''^$.*+?()[]{}|''))"

fun phrase_items :: "bool \<Rightarrow> string \<Rightarrow> pat list" where
  "phrase_items in_gap [] = []"
| "phrase_items in_gap (c # cs) =
     (if is_space c
      then (if in_gap then phrase_items True cs else Gap # phrase_items True cs)
      else Lit c # phrase_items False cs)"

definition term_pattern :: "string \<Rightarrow> pat list option" where
  "term_pattern t = (if list_ex is_regex_syntax t then None else Some (phrase_items False t))"

text \<open>
  Matching the items at the start of a string, the way a backtracking matcher finds it:
  every way the items can match, each as the last character consumed (\<open>prev\<close> when none
  was) and the rest of the string. Letters compare without case (flag \<open>i\<close>).
\<close>

fun match_items :: "pat list \<Rightarrow> char option \<Rightarrow> string \<Rightarrow> (char option \<times> string) list" where
  "match_items [] prev s = [(prev, s)]"
| "match_items (Lit c # ps) prev [] = []"
| "match_items (Lit c # ps) prev (d # s) =
     (if lower_char d = lower_char c then match_items ps (Some d) s else [])"
| "match_items (Gap # ps) prev [] = []"
| "match_items (Gap # ps) prev (d # s) =
     (if is_space d then match_items ps (Some d) s @ match_items (Gap # ps) (Some d) s else [])"

text \<open>
  \<open>\b\<close> holds between two positions when exactly one side is a word character; the start
  and the end of the string count as non-word. \<open>regex_search\<close> tries every start position
  from the left, as \<open>pattern.test(txt)\<close> does.
\<close>

definition at_boundary :: "char option \<Rightarrow> string \<Rightarrow> bool" where
  "at_boundary prev rest =
     ((case prev of None \<Rightarrow> False | Some c \<Rightarrow> is_word c)
        \<noteq> (case rest of [] \<Rightarrow> False | c # r \<Rightarrow> is_word c))"

definition match_at :: "pat list \<Rightarrow> char option \<Rightarrow> string \<Rightarrow> bool" where
  "match_at ps prev s =
     (at_boundary prev s \<and> list_ex (\<lambda>(p, r). at_boundary p r) (match_items ps prev s))"

fun regex_search :: "pat list \<Rightarrow> char option \<Rightarrow> string \<Rightarrow> bool" where
  "regex_search ps prev [] = match_at ps prev []"
| "regex_search ps prev (c # s) = (match_at ps prev (c # s) \<or> regex_search ps (Some c) s)"

definition regex_test :: "pat list \<Rightarrow> string \<Rightarrow> bool" where
  "regex_test ps txt = regex_search ps None txt"

text \<open>
  The callback of \<open>terms.some(...)\<close> for one term, and \<open>some\<close> itself, which stops at the
  first term that matches. \<open>None\<close>: a pattern outside the model was reached.
\<close>

definition matches_term :: "(string \<Rightarrow> string \<Rightarrow> bool) \<Rightarrow> string \<Rightarrow> string \<Rightarrow> bool option" where
  "matches_term collate txt term =
     (let t = trim (toLowerCase term)
      in if length t \<le> 3
         then Some (list_ex (\<lambda>w. collate w t) (split_ws txt))
         else (case term_pattern t of
                 None \<Rightarrow> None
               | Some ps \<Rightarrow> Some (regex_test ps txt)))"

fun some_term :: "(string \<Rightarrow> string \<Rightarrow> bool) \<Rightarrow> string \<Rightarrow> string list \<Rightarrow> bool option" where
  "some_term collate txt [] = Some False"
| "some_term collate txt (term # terms) =
     (case matches_term collate txt term of
        None \<Rightarrow> None
      | Some True \<Rightarrow> Some True
      | Some False \<Rightarrow> some_term collate txt terms)"

text \<open>\<open>s.includes(t)\<close>: \<open>t\<close> occurs in \<open>s\<close> as a substring.\<close>

fun js_includes :: "string \<Rightarrow> string \<Rightarrow> bool" where
  "js_includes [] t = (t = [])"
| "js_includes (c # s) t = (prefix t (c # s) \<or> js_includes s t)"

text \<open>The configuration of find-cancel-elements.js.\<close>

definition SEARCH_TERMS :: "string list" where
  "SEARCH_TERMS = [''close'', ''dismiss'', ''Don't Allow'', ''don't allow'', ''dont allow'',
     ''Later'', ''ok'', ''Reject'', ''decline'', ''no thanks'', ''I'll Give Later'']"

definition BLACKLIST_TERMS :: "string list" where
  "BLACKLIST_TERMS = [''Watch later'', ''facebook'', ''print ad'', ''bookmark'', ''sign in'', ''login'']"

text \<open>
  The loop of \<open>findMatchingClickableElements\<close> in find-cancel-elements.js over the elements
  of a frame: clickable, not an anchor with more than 20 characters of text, a non-empty
  text, a term that matches the normalized text, and no blacklisted phrase in the
  lower-cased text.
\<close>

definition to_match :: "element \<Rightarrow> string \<Rightarrow> matched_element" where
  "to_match el text =
     \<lparr>el_tag = toLowerCase (tagName el), el_text = text, el_x = center_x el, el_y = center_y el\<rparr>"

fun scan_elements :: "(string \<Rightarrow> string \<Rightarrow> bool) \<Rightarrow> string list \<Rightarrow> string list \<Rightarrow> element list
    \<Rightarrow> matched_element list option" where
  "scan_elements collate terms blacklistTerms [] = Some []"
| "scan_elements collate terms blacklistTerms (el # els) =
     (if \<not> isClickable el then scan_elements collate terms blacklistTerms els
      else if toLowerCase (tagName el) = ''a'' \<and> length (trim (textContent el)) > 20
      then scan_elements collate terms blacklistTerms els
      else (let text = element_text el
            in if text = [] then scan_elements collate terms blacklistTerms els
               else (case some_term collate (normalize text) terms of
                       None \<Rightarrow> None
                     | Some False \<Rightarrow> scan_elements collate terms blacklistTerms els
                     | Some True \<Rightarrow>
                         if list_ex (\<lambda>bad. js_includes (toLowerCase text) (toLowerCase bad)) blacklistTerms
                         then scan_elements collate terms blacklistTerms els
                         else map_option (\<lambda>results. to_match el text # results)
                                (scan_elements collate terms blacklistTerms els))))"

definition findMatchingClickableElements :: "(string \<Rightarrow> string \<Rightarrow> bool) \<Rightarrow> element list \<Rightarrow> string list
    \<Rightarrow> matched_element list option" where
  "findMatchingClickableElements collate elements searchTerms =
     scan_elements collate (map toLowerCase searchTerms) BLACKLIST_TERMS elements"

text \<open>
  The matcher of integrated.js, with its configuration: an element matches when its
  lower-cased text contains a lower-cased term.
\<close>

definition SEARCH_TERMS_integrated :: "string list" where
  "SEARCH_TERMS_integrated = [''cancel'', ''close'', ''dismiss'', ''reject'', ''decline'', ''no thanks'']"

definition findMatchingClickableElements_integrated :: "element list \<Rightarrow> string list \<Rightarrow> matched_element list" where
  "findMatchingClickableElements_integrated elements searchTerms =
     (let terms = map toLowerCase searchTerms
      in map (\<lambda>el. to_match el (element_text el))
           (filter (\<lambda>el. isClickable el \<and> element_text el \<noteq> []
                        \<and> list_ex (\<lambda>t. js_includes (toLowerCase (element_text el)) t) terms)
              elements))"

text \<open>A button with a given text, for examples.\<close>

definition button :: "string \<Rightarrow> element" where
  "button text = \<lparr>tagName = ''BUTTON'', textContent = text, el_value = [], has_onclick = False,
     el_role = None, tabIndex = 0, center_x = 100, center_y = 40\<rparr>"

text \<open>
  The term rule for long terms as the specification words it, a word-bounded phrase with
  elastic internal white space: the text splits into three parts, the middle one is the
  phrase up to case, with any non-empty run of white space where the phrase has one, and
  there is a word boundary on either side of the middle part.
\<close>

fun elastic :: "pat list \<Rightarrow> string \<Rightarrow> bool" where
  "elastic [] m = (m = [])"
| "elastic (Lit c # ps) m = (\<exists>d r. m = d # r \<and> lower_char d = lower_char c \<and> elastic ps r)"
| "elastic (Gap # ps) m =
     (\<exists>sp r. m = sp @ r \<and> sp \<noteq> [] \<and> (\<forall>x \<in> set sp. is_space x) \<and> elastic ps r)"

definition word_boundary :: "string \<Rightarrow> string \<Rightarrow> bool" where
  "word_boundary before after =
     ((before \<noteq> [] \<and> is_word (last before)) \<noteq> (after \<noteq> [] \<and> is_word (hd after)))"

definition phrase_occurs :: "string \<Rightarrow> string \<Rightarrow> bool" where
  "phrase_occurs t txt =
     (\<exists>pre mid post. txt = pre @ mid @ post \<and> elastic (phrase_items False t) mid
        \<and> word_boundary pre (mid @ post) \<and> word_boundary (pre @ mid) post)"

text \<open>
  The strings on which the collation is pinned down: lower-case ASCII letters, digits,
  underscores, apostrophes and spaces. \<open>exact_on_plain collate\<close> says that on such strings
  the comparison returns 0 for equal strings only. \<open>equal_up_to_case\<close> is one such
  comparison. A term is made of \<open>term_char\<close>s when lower-casing it gives such a string.
\<close>

definition term_char :: "char \<Rightarrow> bool" where
  "term_char c = (is_word c \<or> c = apostrophe \<or> c = CHR '' '')"

definition lower_plain :: "string \<Rightarrow> bool" where
  "lower_plain s = list_all (\<lambda>c. term_char c \<and> lower_char c = c) s"

definition exact_on_plain :: "(string \<Rightarrow> string \<Rightarrow> bool) \<Rightarrow> bool" where
  "exact_on_plain collate =
     (\<forall>w t. lower_plain w \<and> lower_plain t \<longrightarrow> collate w t = (w = t))"

definition equal_up_to_case :: "string \<Rightarrow> string \<Rightarrow> bool" where
  "equal_up_to_case w t = (toLowerCase w = toLowerCase t)"

text \<open>A button with a given text at another place, for examples.\<close>

definition button_at :: "string \<Rightarrow> int \<Rightarrow> int \<Rightarrow> element" where
  "button_at text x y = (button text)\<lparr>center_x := x, center_y := y\<rparr>"

text \<open>The last character before a position that lies \<open>mid\<close> further on.\<close>

definition last_opt :: "char option \<Rightarrow> string \<Rightarrow> char option" where
  "last_opt prev mid = (if mid = [] then prev else Some (last mid))"


section \<open>Properties of the queue\<close>

lemma getNextJob_steps:
  "getNextJob now db =
     (case getNextJob_step now db AtSelect of
        (db1, c1) \<Rightarrow> (case getNextJob_step now db1 c1 of
           (db2, Finished r) \<Rightarrow> (db2, r) | (db2, _) \<Rightarrow> (db2, None)))"
  by (simp add: getNextJob_def split: option.splits)


subsection \<open>Submitting a URL twice\<close>

lemma url_count_apply_op: "url_count u db = 1 \<Longrightarrow> url_count u (apply_op a db) = 1"
proof (cases a)
  case (OpAddJob f now v)
  assume h: "url_count u db = 1"
  then have "v = u \<Longrightarrow> u \<in> url ` set (rows db)"
    by (auto simp: url_count_def filter_empty_conv dest!: arg_cong[where f="\<lambda>n. n = 0"])
  with h OpAddJob show ?thesis
    by (auto simp: url_count_def addJob_def insert_or_ignore_def new_job_def)
next
  case (OpGetNextJob now)
  assume "url_count u db = 1"
  with OpGetNextJob show ?thesis
    by (auto simp: url_count_def getNextJob_def mark_processing_def filter_map comp_def
        split: option.splits intro!: arg_cong[where f=length] filter_cong)
next
  case (OpUpdateJobStatus now i st err)
  assume "url_count u db = 1"
  with OpUpdateJobStatus show ?thesis
    by (auto simp: url_count_def updateJobStatus_def filter_map comp_def
        intro!: arg_cong[where f=length] filter_cong)
qed

lemma url_count_apply_ops: "url_count u db = 1 \<Longrightarrow> url_count u (apply_ops ops db) = 1"
  by (induction ops arbitrary: db) (simp_all add: url_count_apply_op)

lemma url_count_present: "url_count u db = 1 \<Longrightarrow> u \<in> url ` set (rows db)"
proof -
  assume "url_count u db = 1"
  then have "filter (\<lambda>r. url r = u) (rows db) \<noteq> []"
    by (auto simp: url_count_def)
  then show ?thesis
    by (auto simp: filter_empty_conv)
qed

lemma addJob_accepted: "addJob f now u db = (db1, True) \<Longrightarrow> url_count u db1 = 1"
  by (auto simp: addJob_def insert_or_ignore_def url_count_def new_job_def filter_empty_conv
      split: if_splits)

text \<open>
  C9. Once \<open>addJob(u)\<close> has answered \<open>true\<close>, then after any sequence of queue operations
  (claims, status updates to any status string, other submissions) a further \<open>addJob(u)\<close>
  answers \<open>false\<close> (the "Duplicate skipped" branch) and leaves the rows of the table as they
  were, and the table holds exactly one row with that URL, before and after the second
  call.
\<close>

theorem addJob_duplicate:
  assumes "addJob f now u db = (db1, True)"
  shows "snd (addJob f' now' u (apply_ops ops db1)) = False
       \<and> rows (fst (addJob f' now' u (apply_ops ops db1))) = rows (apply_ops ops db1)
       \<and> url_count u (apply_ops ops db1) = 1
       \<and> url_count u (fst (addJob f' now' u (apply_ops ops db1))) = 1"
proof -
  have c: "url_count u (apply_ops ops db1) = 1"
    using assms by (simp add: addJob_accepted url_count_apply_ops)
  then have "u \<in> url ` set (rows (apply_ops ops db1))"
    by (rule url_count_present)
  then have "snd (addJob f' now' u (apply_ops ops db1)) = False
      \<and> rows (fst (addJob f' now' u (apply_ops ops db1))) = rows (apply_ops ops db1)"
    by (simp add: addJob_def insert_or_ignore_def)
  with c show ?thesis by (simp add: url_count_def)
qed

theorem addJob_duplicate_witness:
  "addJob False 100 ''https://example.com/a'' db_empty = (db_one_pending, True)
   \<and> addJob False 300 ''https://example.com/a''
        (apply_ops [OpGetNextJob 110, OpUpdateJobStatus 120 1 ''completed'' None] db_one_pending)
      = (db_one_completed\<lparr>next_id := 3\<rparr>, False)
   \<and> url_count ''https://example.com/a'' db_one_completed = 1"
proof -
  have a: "addJob False 100 ''https://example.com/a'' db_empty = (db_one_pending, True)"
    by (simp add: addJob_def insert_or_ignore_def db_empty_def db_one_pending_def)
  have b: "apply_ops [OpGetNextJob 110, OpUpdateJobStatus 120 1 ''completed'' None] db_one_pending
      = db_one_completed"
    by (simp add: getNextJob_def select_pending_def mark_processing_def updateJobStatus_def
        db_one_pending_def db_one_completed_def new_job_def)
  have c: "addJob False 300 ''https://example.com/a'' db_one_completed
      = (db_one_completed\<lparr>next_id := 3\<rparr>, False)"
    by (simp add: addJob_def insert_or_ignore_def db_one_completed_def new_job_def)
  show ?thesis
    using addJob_duplicate [OF a, of False 300
        "[OpGetNextJob 110, OpUpdateJobStatus 120 1 ''completed'' None]"] a b c
    by simp
qed


subsection \<open>Claiming a job\<close>

text \<open>
  Run alone, \<open>getNextJob\<close> does what is asked of it: it answers \<open>null\<close> exactly when no row
  is pending, and otherwise picks a pending row of least \<open>added_at\<close> and sets that id to
  \<open>processing\<close> with \<open>started_at\<close>.
\<close>

lemma oldest_least:
  "oldest b rs \<in> set (b # rs) \<and> (\<forall>r \<in> set (b # rs). added_at (oldest b rs) \<le> added_at r)"
proof (induction rs arbitrary: b)
  case Nil
  show ?case by simp
next
  case (Cons r rs)
  show ?case
    using Cons.IH [of "if added_at r < added_at b then r else b"]
    by (auto split: if_splits)
qed

lemma select_pending_oldest:
  "select_pending db = Some j \<Longrightarrow>
     j \<in> set (rows db) \<and> status j = ''pending''
     \<and> (\<forall>r \<in> set (rows db). status r = ''pending'' \<longrightarrow> added_at j \<le> added_at r)"
proof -
  assume h: "select_pending db = Some j"
  then obtain b rs where f: "filter (\<lambda>r. status r = ''pending'') (rows db) = b # rs"
    and j: "j = oldest b rs"
    by (auto simp: select_pending_def split: list.splits)
  have m: "j \<in> set (b # rs)" and l: "\<forall>r \<in> set (b # rs). added_at j \<le> added_at r"
    using oldest_least [of b rs] j by simp_all
  have s: "set (b # rs) = {r \<in> set (rows db). status r = ''pending''}"
    using f [symmetric] by simp
  show ?thesis
    using m l unfolding s by simp
qed

lemma select_pending_none:
  "select_pending db = None \<longleftrightarrow> (\<forall>r \<in> set (rows db). status r \<noteq> ''pending'')"
proof (cases "filter (\<lambda>r. status r = ''pending'') (rows db)")
  case Nil
  then show ?thesis
    by (simp add: select_pending_def filter_empty_conv)
next
  case (Cons b rs)
  then have "b \<in> set (filter (\<lambda>r. status r = ''pending'') (rows db))"
    by simp
  then have "\<exists>r \<in> set (rows db). status r = ''pending''"
    by auto
  with Cons show ?thesis
    by (simp add: select_pending_def)
qed

lemma getNextJob_marks:
  "getNextJob now db = (db', Some j) \<Longrightarrow>
     (\<forall>r \<in> set (rows db'). job_id r = job_id j \<longrightarrow>
        status r = ''processing'' \<and> started_at r = Some now)
     \<and> map job_id (rows db') = map job_id (rows db)"
  by (auto simp: getNextJob_def mark_processing_def split: option.splits)

text \<open>
  C1. The select-and-mark is not atomic. With one pending job and two workers, the
  schedule SELECT (worker 1), SELECT (worker 2), UPDATE (worker 1), UPDATE (worker 2) is
  a run of the program: after the third statement worker 1 has returned job 1 and the row
  is \<open>processing\<close>, and the fourth statement makes worker 2 return job 1 as well.
\<close>

theorem getNextJob_double_claim:
  "run_schedule 110 [W1, W2, W1] (db_one_pending, AtSelect, AtSelect)
     = (db_one_processing, Finished (Some (new_job 1 ''https://example.com/a'' 100)),
        AtUpdate (new_job 1 ''https://example.com/a'' 100))
   \<and> run_schedule 110 [W1, W2, W1, W2] (db_one_pending, AtSelect, AtSelect)
     = (db_one_processing, Finished (Some (new_job 1 ''https://example.com/a'' 100)),
        Finished (Some (new_job 1 ''https://example.com/a'' 100)))"
  by (simp add: select_pending_def mark_processing_def db_one_pending_def db_one_processing_def
      new_job_def)


subsection \<open>Terminal transitions\<close>

lemma find_map_other:
  "(\<And>x. job_id (f x) = job_id x) \<Longrightarrow> k \<noteq> i \<Longrightarrow>
   find (\<lambda>r. job_id r = k) (map (\<lambda>x. if job_id x = i then f x else x) xs) = find (\<lambda>r. job_id r = k) xs"
  by (induction xs) auto

lemma find_map_same:
  "(\<And>x. job_id (f x) = job_id x) \<Longrightarrow> find (\<lambda>r. job_id r = i) xs = Some r \<Longrightarrow>
   find (\<lambda>r. job_id r = i) (map (\<lambda>x. if job_id x = i then f x else x) xs) = Some (f r)"
  by (induction xs) (auto split: if_splits)

text \<open>
  C5, as amended. \<open>updateJobStatus(id, status, error)\<close> is unconditional: whatever status the
  row has (terminal or not), afterwards it has the status and the error message handed in,
  and \<open>completed_at\<close> is set to the time of the call exactly when the status handed in is
  \<open>"completed"\<close>; every other row is as before. The same call made again, at any time,
  leaves the table as that later call alone would have left it: for a status other than
  \<open>"completed"\<close> the repeat changes nothing, for \<open>"completed"\<close> it moves \<open>completed_at\<close> to
  the time of the repeat.
\<close>

theorem updateJobStatus_unconditional:
  assumes "job_row i db = Some r"
  shows "job_row i (updateJobStatus now i st err db)
           = Some (r\<lparr>status := st,
                     completed_at := (if st = ''completed'' then Some now else completed_at r),
                     error_message := err\<rparr>)
       \<and> (\<forall>k. k \<noteq> i \<longrightarrow> job_row k (updateJobStatus now i st err db) = job_row k db)
       \<and> updateJobStatus now' i st err (updateJobStatus now i st err db)
           = updateJobStatus now' i st err db
       \<and> (st \<noteq> ''completed'' \<longrightarrow>
            updateJobStatus now' i st err (updateJobStatus now i st err db)
              = updateJobStatus now i st err db)
       \<and> (st = ''completed'' \<longrightarrow>
            job_row i (updateJobStatus now' i st err (updateJobStatus now i st err db))
              = Some (r\<lparr>status := st, completed_at := Some now', error_message := err\<rparr>))"
proof -
  let ?f = "\<lambda>r. if st = ''completed''
                 then r\<lparr>status := st, completed_at := Some now, error_message := err\<rparr>
                 else r\<lparr>status := st, error_message := err\<rparr>"
  let ?g = "\<lambda>r. if st = ''completed''
                 then r\<lparr>status := st, completed_at := Some now', error_message := err\<rparr>
                 else r\<lparr>status := st, error_message := err\<rparr>"
  have id: "\<And>x. job_id (?f x) = job_id x" by simp
  have id': "\<And>x. job_id (?g x) = job_id x" by simp
  have a: "job_row i (updateJobStatus now i st err db) = Some (?f r)"
    using assms find_map_same [of ?f i "rows db" r, OF id]
    by (simp add: job_row_def updateJobStatus_def)
  have b: "\<forall>k. k \<noteq> i \<longrightarrow> job_row k (updateJobStatus now i st err db) = job_row k db"
    using find_map_other [of ?f _ i "rows db", OF id]
    by (simp add: job_row_def updateJobStatus_def)
  have c: "updateJobStatus now' i st err (updateJobStatus now i st err db)
           = updateJobStatus now' i st err db"
    by (simp add: updateJobStatus_def comp_def)
  have d: "st \<noteq> ''completed'' \<longrightarrow>
            updateJobStatus now' i st err (updateJobStatus now i st err db)
              = updateJobStatus now i st err db"
    by (simp add: updateJobStatus_def comp_def)
  have "job_row i (updateJobStatus now' i st err db) = Some (?g r)"
    using assms find_map_same [of ?g i "rows db" r, OF id']
    by (simp add: job_row_def updateJobStatus_def)
  then have e: "st = ''completed'' \<longrightarrow>
            job_row i (updateJobStatus now' i st err (updateJobStatus now i st err db))
              = Some (r\<lparr>status := st, completed_at := Some now', error_message := err\<rparr>)"
    using c by auto
  show ?thesis
    using a b c d e by simp
qed

theorem updateJobStatus_unconditional_witness:
  "job_row 1 (updateJobStatus 200 1 ''failed'' (Some ''Archive failed'') db_one_completed)
     = Some ((new_job 1 ''https://example.com/a'' 100)
               \<lparr>status := ''failed'', started_at := Some 110, completed_at := Some 120,
                error_message := Some ''Archive failed''\<rparr>)
   \<and> job_row 1 (updateJobStatus 300 1 ''completed'' None
                  (updateJobStatus 200 1 ''completed'' None db_one_completed))
     = Some ((new_job 1 ''https://example.com/a'' 100)
               \<lparr>status := ''completed'', started_at := Some 110, completed_at := Some 300\<rparr>)"
proof -
  have r: "job_row 1 db_one_completed
     = Some ((new_job 1 ''https://example.com/a'' 100)
               \<lparr>status := ''completed'', started_at := Some 110, completed_at := Some 120\<rparr>)"
    by (simp add: job_row_def db_one_completed_def new_job_def)
  have a: "job_row 1 (updateJobStatus 200 1 ''failed'' (Some ''Archive failed'') db_one_completed)
     = Some ((new_job 1 ''https://example.com/a'' 100)
               \<lparr>status := ''failed'', started_at := Some 110, completed_at := Some 120,
                error_message := Some ''Archive failed''\<rparr>)"
    using updateJobStatus_unconditional
      [OF r, of 200 "''failed''" "Some ''Archive failed''" 300, THEN conjunct1]
    by (simp add: new_job_def)
  have b: "job_row 1 (updateJobStatus 300 1 ''completed'' None
                  (updateJobStatus 200 1 ''completed'' None db_one_completed))
     = Some ((new_job 1 ''https://example.com/a'' 100)
               \<lparr>status := ''completed'', started_at := Some 110, completed_at := Some 300\<rparr>)"
    using updateJobStatus_unconditional
      [OF r, of 200 "''completed''" None 300,
       THEN conjunct2, THEN conjunct2, THEN conjunct2, THEN conjunct2]
    by (simp add: new_job_def)
  show ?thesis
    using a b by (rule conjI)
qed

text \<open>
  The claim as the specification has it fails on a finished job: \<open>fail(1, "Archive failed")\<close>
  on a \<open>completed\<close> row rewrites the row.
\<close>

theorem updateJobStatus_terminal_counterexample:
  "map_option status (job_row 1 db_one_completed) = Some ''completed''
   \<and> job_row 1 (updateJobStatus 200 1 ''failed'' (Some ''Archive failed'') db_one_completed)
       \<noteq> job_row 1 db_one_completed
   \<and> map_option status
        (job_row 1 (updateJobStatus 200 1 ''failed'' (Some ''Archive failed'') db_one_completed))
       = Some ''failed''"
  by (simp add: job_row_def updateJobStatus_def db_one_completed_def new_job_def)


subsection \<open>What the worker writes back\<close>

text \<open>
  C6. The worker hands \<open>updateJobStatus\<close> the string \<open>"complete"\<close>. For a job whose run
  succeeded, the row ends with status \<open>complete\<close>, which is none of the four statuses, and
  \<open>completed_at\<close> stays NULL, since only \<open>"completed"\<close> selects the statement that sets it.
\<close>

theorem processQueue_records_complete:
  "archive_outcome never_rejects ''https://example.com/a'' = True
   \<and> outcome_columns (processQueue_iteration (archive_outcome never_rejects) 110 db_one_pending)
       = Some [(''complete'', None, None)]
   \<and> outcome_columns (Some (processQueue (archive_outcome never_rejects) 110 db_one_pending))
       = Some [(''complete'', None, None)]"
proof -
  let ?db1 = "\<lparr>rows = [(new_job 1 ''https://example.com/a'' 100)
                 \<lparr>status := ''complete'', started_at := Some 110\<rparr>], next_id = 2\<rparr>"
  have a: "archive_outcome never_rejects ''https://example.com/a'' = True"
    by (simp add: archive_outcome_def runArchive_def runArchive_body_def saveArchive_body_def
        never_rejects_def)
  have b: "processQueue_iteration (archive_outcome never_rejects) 110 db_one_pending = Some ?db1"
    by (simp add: a processQueue_iteration_def getNextJob_def select_pending_def
        mark_processing_def updateJobStatus_def db_one_pending_def new_job_def)
  have c: "processQueue_iteration (archive_outcome never_rejects) (Suc 110) ?db1 = None"
    by (simp add: processQueue_iteration_def getNextJob_def select_pending_def new_job_def)
  have "processQueue (archive_outcome never_rejects) 110 db_one_pending
      = processQueue (archive_outcome never_rejects) (Suc 110) ?db1"
    by (subst processQueue.simps) (simp only: b option.case)
  also have "\<dots> = ?db1"
    by (subst processQueue.simps) (simp only: c option.case)
  finally have d: "processQueue (archive_outcome never_rejects) 110 db_one_pending = ?db1" .
  show ?thesis
    by (simp add: a b d outcome_columns_def new_job_def)
qed

text \<open>
  C3. \<open>removeAllGoogleAds\<close> has no \<open>try/catch\<close> and neither call of it is wrapped. When
  it throws in \<open>runArchive\<close>, the run stops there, nothing is captured, and the job is
  written back as \<open>failed\<close> with "Archive failed". When only the call inside \<open>saveArchive\<close>
  throws, the run stops before the screenshot and the PDF, with the same outcome.
\<close>

theorem ad_removal_failure_fails_job:
  "runArchive ad_removal_rejects ''https://example.com/a''
     = (False, [NewPage, SetUserAgent, SetExtraHTTPHeaders, SetViewport,
                Goto ''https://example.com/a'', ClickExpandableContent, ClickReadMore,
                ClickBottomFooterButton, RemoveAllGoogleAds])
   \<and> outcome_columns (processQueue_iteration (archive_outcome ad_removal_rejects) 110 db_one_pending)
       = Some [(''failed'', None, Some ''Archive failed'')]
   \<and> fst (runArchive late_ad_removal_rejects ''https://example.com/a'') = False
   \<and> Screenshot \<notin> set (snd (runArchive late_ad_removal_rejects ''https://example.com/a''))
   \<and> Pdf \<notin> set (snd (runArchive late_ad_removal_rejects ''https://example.com/a''))
   \<and> outcome_columns (processQueue_iteration (archive_outcome late_ad_removal_rejects) 110 db_one_pending)
       = Some [(''failed'', None, Some ''Archive failed'')]"
  by (simp add: archive_outcome_def runArchive_def runArchive_body_def saveArchive_body_def
      ad_removal_rejects_def late_ad_removal_rejects_def outcome_columns_def
      processQueue_iteration_def getNextJob_def
      select_pending_def mark_processing_def updateJobStatus_def db_one_pending_def new_job_def)


subsection \<open>The order of captures\<close>

lemma exec_prefix: "prefix (snd (exec rejects pc prog)) (map stmt_op prog)"
proof (induction prog arbitrary: pc)
  case Nil
  show ?case by simp
next
  case (Cons s prog)
  show ?case
    using Cons.IH [of "Suc pc"] by (cases s) (auto split: prod.splits)
qed

lemma exec_ok: "fst (exec rejects pc prog) \<Longrightarrow> snd (exec rejects pc prog) = map stmt_op prog"
proof (induction prog arbitrary: pc)
  case Nil
  show ?case by simp
next
  case (Cons s prog)
  show ?case
    using Cons.IH [of "Suc pc"] Cons.prems by (cases s) (auto split: prod.splits if_splits)
qed

lemma runArchive_ops:
  "map stmt_op (runArchive_body u) =
     [NewPage, SetUserAgent, SetExtraHTTPHeaders, SetViewport, Goto u,
      ClickExpandableContent, ClickReadMore, ClickBottomFooterButton, RemoveAllGoogleAds,
      Mkdir, PageContent RawHtml, WriteFile PageRawHtml,
      DismissOneSignalSlidedown, RemoveOneSignalBell, ClickPopups, TriggerLazyLoadScroll,
      PageContent ModifiedHtml, ClickBottomFooterButton, RemoveAllGoogleAds,
      WriteFile PageHtml, ClickExpandableContent, FixLayout, SettleScroll,
      WaitForNetworkIdle, Screenshot, TriggerLazyLoadScroll, WaitForNetworkIdle,
      AntiClipPatch, FixLayout, SetViewport, EmulateMediaType, Pdf,
      ReadMetrics, ReadUserAgent, WriteFile MetaJson]"
  by (simp add: runArchive_body_def saveArchive_body_def)

lemma captures_of_run:
  "filter is_capture (map stmt_op (runArchive_body u))
     = [PageContent RawHtml, PageContent ModifiedHtml, Screenshot, Pdf]"
  by (simp add: runArchive_ops is_capture_def)

text \<open>
  C2, as amended. In every run the captures made are, in this order, the raw HTML, the
  sanitized HTML, the screenshot and the PDF (a run that stops early makes a prefix of
  them). In a run that succeeds all four are made; the sanitized HTML is serialized after
  the two OneSignal stages, the popup pass and the first lazy-load scroll; the screenshot
  is taken after a content expansion and a layout fix; and no sanitization stage runs after
  the PDF. Within \<open>saveArchive\<close> no DOM mutation precedes the serialization of the raw
  HTML.
\<close>

theorem capture_order_of_run:
  "prefix (filter is_capture (snd (runArchive rejects u)))
          [PageContent RawHtml, PageContent ModifiedHtml, Screenshot, Pdf]
   \<and> (fst (runArchive rejects u) \<longrightarrow>
        filter is_capture (snd (runArchive rejects u))
          = [PageContent RawHtml, PageContent ModifiedHtml, Screenshot, Pdf]
        \<and> all_before [DismissOneSignalSlidedown, RemoveOneSignalBell, ClickPopups,
                       TriggerLazyLoadScroll] (PageContent ModifiedHtml) (snd (runArchive rejects u))
        \<and> all_before [ClickExpandableContent, FixLayout] Screenshot (snd (runArchive rejects u))
        \<and> none_after is_sanitization Pdf (snd (runArchive rejects u)))
   \<and> (fst (saveArchive rejects pc) \<longrightarrow>
        none_before is_dom_mutation (PageContent RawHtml) (snd (saveArchive rejects pc)))"
proof -
  have p: "prefix (filter is_capture (snd (runArchive rejects u)))
          [PageContent RawHtml, PageContent ModifiedHtml, Screenshot, Pdf]"
    using filter_mono_prefix [OF exec_prefix, of is_capture rejects 0 "runArchive_body u"]
    by (simp only: runArchive_def captures_of_run)
  have q: "fst (runArchive rejects u) \<Longrightarrow>
      snd (runArchive rejects u) = map stmt_op (runArchive_body u)"
    unfolding runArchive_def by (rule exec_ok)
  have r: "fst (saveArchive rejects pc) \<Longrightarrow>
      snd (saveArchive rejects pc) = map stmt_op saveArchive_body"
    unfolding saveArchive_def by (rule exec_ok)
  have a: "filter is_capture (map stmt_op (runArchive_body u))
          = [PageContent RawHtml, PageContent ModifiedHtml, Screenshot, Pdf]"
    by (rule captures_of_run)
  have b: "all_before [DismissOneSignalSlidedown, RemoveOneSignalBell, ClickPopups,
                       TriggerLazyLoadScroll] (PageContent ModifiedHtml)
             (map stmt_op (runArchive_body u))"
    by (simp add: runArchive_ops all_before_def)
  have c: "all_before [ClickExpandableContent, FixLayout] Screenshot
             (map stmt_op (runArchive_body u))"
    by (simp add: runArchive_ops all_before_def)
  have d: "none_after is_sanitization Pdf (map stmt_op (runArchive_body u))"
    by (simp add: runArchive_ops none_after_def is_sanitization_def)
  have e: "none_before is_dom_mutation (PageContent RawHtml) (map stmt_op saveArchive_body)"
    by (simp add: saveArchive_body_def none_before_def)
  show ?thesis
    using p q r a b c d e by simp
qed

theorem capture_order_of_run_witness:
  "filter is_capture (snd (runArchive never_rejects ''https://example.com/a''))
     = [PageContent RawHtml, PageContent ModifiedHtml, Screenshot, Pdf]
   \<and> none_after is_sanitization Pdf (snd (runArchive never_rejects ''https://example.com/a''))
   \<and> none_before is_dom_mutation (PageContent RawHtml) (snd (saveArchive never_rejects 9))"
proof -
  have a: "fst (runArchive never_rejects ''https://example.com/a'')"
    by (simp add: runArchive_def runArchive_body_def saveArchive_body_def never_rejects_def)
  have b: "fst (saveArchive never_rejects 9)"
    by (simp add: saveArchive_def saveArchive_body_def never_rejects_def)
  show ?thesis
    using capture_order_of_run [of never_rejects "''https://example.com/a''" 9] a b by simp
qed


text \<open>
  The ordering as the specification words it fails on a run in which nothing throws:
  \<open>runArchive\<close> has clicked, expanded and removed ads before \<open>saveArchive\<close> serializes the raw
  HTML; the sanitized HTML is serialized before the footer click, the ad removal, the
  expansion and the layout fixes of \<open>saveArchive\<close>; and the screenshot is followed by a
  scroll, the anti-clip patch and a second layout fix.
\<close>

theorem capture_order_counterexample:
  "fst (runArchive never_rejects ''https://example.com/a'')
   \<and> \<not> spec_capture_order (snd (runArchive never_rejects ''https://example.com/a''))
   \<and> \<not> none_before is_dom_mutation (PageContent RawHtml)
         (snd (runArchive never_rejects ''https://example.com/a''))
   \<and> \<not> none_after is_sanitization (PageContent ModifiedHtml)
         (snd (runArchive never_rejects ''https://example.com/a''))
   \<and> \<not> none_after is_sanitization Screenshot
         (snd (runArchive never_rejects ''https://example.com/a''))"
  by (simp add: runArchive_def runArchive_body_def saveArchive_body_def never_rejects_def
      spec_capture_order_def none_before_def none_after_def is_sanitization_def)


subsection \<open>Deduplication and the single click\<close>

lemma dedupe_loop_acc:
  "dedupe_loop els seen unique = unique @ dedupe_loop els seen []"
proof (induction els arbitrary: seen unique)
  case Nil
  show ?case by simp
next
  case (Cons el els)
  show ?case
    using Cons.IH [of "insert (dedupe_key el) seen" "unique @ [el]"]
      Cons.IH [of "insert (dedupe_key el) seen" "[el]"] Cons.IH [of seen unique]
    by (simp add: Let_def)
qed

lemma dedupe_loop_Cons:
  "dedupe_loop (el # els) seen [] =
     (if dedupe_key el \<notin> seen \<and> dedupe_key el \<noteq> []
      then el # dedupe_loop els (insert (dedupe_key el) seen) []
      else dedupe_loop els seen [])"
  using dedupe_loop_acc [of els "insert (dedupe_key el) seen" "[el]"]
  by (simp add: Let_def)

lemma dedupe_keys:
  "dedupe_key ` set (dedupe_loop els seen []) = dedupe_key ` set els - seen - {[]}"
proof (induction els arbitrary: seen)
  case Nil
  show ?case by simp
next
  case (Cons el els)
  show ?case
    unfolding dedupe_loop_Cons using Cons.IH by auto
qed

lemma dedupe_distinct: "distinct (map dedupe_key (dedupe_loop els seen []))"
proof (induction els arbitrary: seen)
  case Nil
  show ?case by simp
next
  case (Cons el els)
  show ?case
    unfolding dedupe_loop_Cons using Cons.IH dedupe_keys [of els "insert (dedupe_key el) seen"]
    by auto
qed

lemma dedupe_subseq: "subseq (dedupe_loop els seen []) els"
proof (induction els arbitrary: seen)
  case Nil
  show ?case by simp
next
  case (Cons el els)
  show ?case
    unfolding dedupe_loop_Cons using Cons.IH by auto
qed

lemma dedupe_first:
  "u \<in> set (dedupe_loop els seen []) \<Longrightarrow> find (\<lambda>m. dedupe_key m = dedupe_key u) els = Some u"
proof (induction els arbitrary: seen)
  case Nil
  then show ?case by simp
next
  case (Cons el els)
  show ?case
  proof (cases "dedupe_key el \<notin> seen \<and> dedupe_key el \<noteq> []")
    case True
    show ?thesis
    proof (cases "u = el")
      case True
      then show ?thesis by simp
    next
      case False
      with True Cons.prems have m: "u \<in> set (dedupe_loop els (insert (dedupe_key el) seen) [])"
        by (simp add: dedupe_loop_Cons del: dedupe_loop.simps)
      then have "dedupe_key u \<in> dedupe_key ` set els - insert (dedupe_key el) seen - {[]}"
        using dedupe_keys [of els "insert (dedupe_key el) seen"] by blast
      then have "dedupe_key el \<noteq> dedupe_key u" by auto
      with Cons.IH [OF m] show ?thesis by simp
    qed
  next
    case False
    with Cons.prems have m: "u \<in> set (dedupe_loop els seen [])"
      by (simp add: dedupe_loop_Cons del: dedupe_loop.simps)
    then have "dedupe_key u \<in> dedupe_key ` set els - seen - {[]}"
      using dedupe_keys [of els seen] by blast
    with False have "dedupe_key el \<noteq> dedupe_key u" by auto
    with Cons.IH [OF m] show ?thesis by simp
  qed
qed

lemma dedupe_head:
  "(case dedupe_loop els {} [] of [] \<Rightarrow> None | first # rest \<Rightarrow> Some first)
     = find (\<lambda>m. dedupe_key m \<noteq> []) els"
proof (induction els)
  case Nil
  show ?case by simp
next
  case (Cons el els)
  show ?case
    unfolding dedupe_loop_Cons using Cons.IH by simp
qed

lemma clickPopups_take:
  "clickPopups rejects react page matches
     = clickElements rejects react page (take 1 (dedupe_loop matches {} []))"
proof (cases "dedupe_loop matches {} []")
  case Nil
  then show ?thesis by (simp add: clickPopups_def)
next
  case (Cons first rest)
  then have "matches \<noteq> []" by auto
  with Cons show ?thesis by (simp add: clickPopups_def)
qed

lemma clickElements_one:
  "snd (clickElements rejects react page [first]) =
     (if el_tag first = ''a'' \<and> 15 < length (el_text first) then []
      else if rejects first then []
      else (case click_target page (el_text first) of None \<Rightarrow> [] | Some target \<Rightarrow> [target]))"
  by (simp split: option.splits)

lemma clickPopups_clicked:
  "snd (clickPopups rejects react page matches) = [target] \<longleftrightarrow>
     (\<exists>first. find (\<lambda>m. dedupe_key m \<noteq> []) matches = Some first
        \<and> \<not> (el_tag first = ''a'' \<and> 15 < length (el_text first)) \<and> \<not> rejects first
        \<and> click_target page (el_text first) = Some target)"
proof (cases "dedupe_loop matches {} []")
  case Nil
  then have "find (\<lambda>m. dedupe_key m \<noteq> []) matches = None"
    using dedupe_head [of matches] by simp
  with Nil show ?thesis
    unfolding clickPopups_take by simp
next
  case (Cons first rest)
  then have f: "find (\<lambda>m. dedupe_key m \<noteq> []) matches = Some first"
    using dedupe_head [of matches] by simp
  have "snd (clickPopups rejects react page matches)
          = snd (clickElements rejects react page [first])"
    unfolding clickPopups_take Cons by simp
  then show ?thesis
    unfolding f clickElements_one by (simp split: option.splits)
qed

lemma clickPopups_length: "length (snd (clickPopups rejects react page matches)) \<le> 1"
proof (cases "dedupe_loop matches {} []")
  case Nil
  then show ?thesis unfolding clickPopups_take by simp
next
  case (Cons first rest)
  have "snd (clickPopups rejects react page matches)
          = snd (clickElements rejects react page [first])"
    unfolding clickPopups_take Cons by simp
  then show ?thesis
    unfolding clickElements_one by (simp split: option.splits)
qed

text \<open>
  C8, as amended. The deduplication goes by the trimmed, lower-cased text of a match (its
  \<open>dedupe_key\<close>), not by the normalized text of the matcher: the matches kept have pairwise
  different keys, stand in discovery order, are each the first match with their key, and
  cover every non-empty key of the matches; the first of them is the first match with a
  non-empty key. The pass hands \<open>clickElements\<close> that one alone, so at most one node is
  clicked. Exactly one is, \<open>target\<close>, precisely when the first match with a non-empty key is
  no anchor with more than 15 characters of text, no call into the page rejects for it,
  and \<open>target\<close> is the first button, anchor, input or \<open>div[role=button]\<close> of the main
  document whose trimmed text is that of the match up to case.
\<close>

theorem clickPopups_single_shot:
  "distinct (map dedupe_key (dedupe_loop matches {} []))
   \<and> subseq (dedupe_loop matches {} []) matches
   \<and> (\<forall>u \<in> set (dedupe_loop matches {} []).
         find (\<lambda>m. dedupe_key m = dedupe_key u) matches = Some u)
   \<and> dedupe_key ` set (dedupe_loop matches {} []) = dedupe_key ` set matches - {[]}
   \<and> (case dedupe_loop matches {} [] of [] \<Rightarrow> None | first # rest \<Rightarrow> Some first)
       = find (\<lambda>m. dedupe_key m \<noteq> []) matches
   \<and> clickPopups rejects react page matches
       = clickElements rejects react page (take 1 (dedupe_loop matches {} []))
   \<and> length (snd (clickPopups rejects react page matches)) \<le> 1
   \<and> (\<forall>target. snd (clickPopups rejects react page matches) = [target] \<longleftrightarrow>
         (\<exists>first. find (\<lambda>m. dedupe_key m \<noteq> []) matches = Some first
            \<and> \<not> (el_tag first = ''a'' \<and> 15 < length (el_text first)) \<and> \<not> rejects first
            \<and> click_target page (el_text first) = Some target))"
proof -
  have a: "distinct (map dedupe_key (dedupe_loop matches {} []))"
    by (rule dedupe_distinct)
  have b: "subseq (dedupe_loop matches {} []) matches"
    by (rule dedupe_subseq)
  have c: "\<forall>u \<in> set (dedupe_loop matches {} []).
         find (\<lambda>m. dedupe_key m = dedupe_key u) matches = Some u"
    using dedupe_first [of _ matches "{}"] by blast
  have d: "dedupe_key ` set (dedupe_loop matches {} []) = dedupe_key ` set matches - {[]}"
    using dedupe_keys [of matches "{}"] by simp
  have e: "\<forall>target. snd (clickPopups rejects react page matches) = [target] \<longleftrightarrow>
         (\<exists>first. find (\<lambda>m. dedupe_key m \<noteq> []) matches = Some first
            \<and> \<not> (el_tag first = ''a'' \<and> 15 < length (el_text first)) \<and> \<not> rejects first
            \<and> click_target page (el_text first) = Some target)"
    using clickPopups_clicked [of rejects react page matches] by blast
  show ?thesis
    using a b c d dedupe_head [of matches] clickPopups_take [of rejects react page matches]
      clickPopups_length [of rejects react page matches] e
    by blast
qed

lemma key_evals:
  "dedupe_key el_close_1 = ''close''" "dedupe_key el_close_2 = ''close''"
  "dedupe_key el_no_thanks = ''no thanks''"
  "dedupe_key el_close_window = ''close this window''"
  by (simp_all add: dedupe_key_def el_close_1_def el_close_2_def el_no_thanks_def
      el_close_window_def trim_def toLowerCase_def lower_char_def is_space_def char_of_eq_iff)

lemma click_target_close:
  "click_target sample_page (el_text el_close_1)
     = Some \<lparr>node_id = 1, node_innerText = [], node_value = ''close''\<rparr>"
proof -
  have t: "toLowerCase (el_text el_close_1) = ''close''"
    by (simp add: el_close_1_def toLowerCase_def lower_char_def char_of_eq_iff)
  show ?thesis
    unfolding click_target_def t
    by (simp add: sample_page_def node_text_def trim_def toLowerCase_def lower_char_def
        is_space_def char_of_eq_iff)
qed

text \<open>
  Of the three matches "Close", "CLOSE" and "No thanks" the second is dropped, and the one
  click of the pass goes to the first candidate of the document with the text "close",
  here an input and not the button that was matched.
\<close>

theorem clickPopups_single_shot_witness:
  "dedupe_loop [el_close_1, el_close_2, el_no_thanks] {} [] = [el_close_1, el_no_thanks]
   \<and> snd (clickPopups no_call_rejects remove_clicked sample_page
            [el_close_1, el_close_2, el_no_thanks])
       = [\<lparr>node_id = 1, node_innerText = [], node_value = ''close''\<rparr>]"
proof -
  have d: "dedupe_loop [el_close_1, el_close_2, el_no_thanks] {} [] = [el_close_1, el_no_thanks]"
    by (simp add: key_evals)
  have f: "find (\<lambda>m. dedupe_key m \<noteq> []) [el_close_1, el_close_2, el_no_thanks] = Some el_close_1"
    by (simp add: key_evals)
  have g: "\<not> (el_tag el_close_1 = ''a'' \<and> 15 < length (el_text el_close_1))"
    by (simp add: el_close_1_def)
  have "snd (clickPopups no_call_rejects remove_clicked sample_page
            [el_close_1, el_close_2, el_no_thanks])
       = [\<lparr>node_id = 1, node_innerText = [], node_value = ''close''\<rparr>]"
    using clickPopups_single_shot [of "[el_close_1, el_close_2, el_no_thanks]"
        no_call_rejects remove_clicked sample_page,
        THEN conjunct2, THEN conjunct2, THEN conjunct2, THEN conjunct2, THEN conjunct2,
        THEN conjunct2, THEN conjunct2, THEN spec,
        of "\<lparr>node_id = 1, node_innerText = [], node_value = ''close''\<rparr>"]
      f g click_target_close
    by (simp add: no_call_rejects_def)
  with d show ?thesis by (rule conjI)
qed

text \<open>
  The claim speaks of the normalized text and of a click on the first unique element. The
  buttons "Close" and "Close!" are both matched, have the same normalized text, and are
  both kept by the deduplication, whose key keeps the punctuation. And when the first
  match is the anchor "Close this window", of 17 characters, the matcher returns it, the
  deduplication keeps it as the first unique element, and the pass clicks nothing, though
  the document holds that anchor and a "Close" button.
\<close>

lemma matcher_close_buttons:
  "findMatchingClickableElements collate
     [(button_at ''Close this window'' 500 60)\<lparr>tagName := ''A''\<rparr>,
      button_at ''Close'' 100 40, button_at ''Close!'' 700 900] SEARCH_TERMS
   = Some [el_close_window, el_close_1,
           \<lparr>el_tag = ''button'', el_text = ''Close!'', el_x = 700, el_y = 900\<rparr>]"
  by (simp add: findMatchingClickableElements_def SEARCH_TERMS_def BLACKLIST_TERMS_def
      button_at_def button_def isClickable_def element_text_def to_match_def normalize_def
      matches_term_def term_pattern_def is_regex_syntax_def regex_test_def match_at_def
      at_boundary_def el_close_window_def el_close_1_def
      is_space_def is_word_def lower_char_def toLowerCase_def trim_def char_of_eq_iff
      apostrophe_def)

lemma normalize_close: "normalize ''Close'' = ''close''" "normalize ''Close!'' = ''close''"
  by (simp_all add: normalize_def is_space_def is_word_def lower_char_def toLowerCase_def
      trim_def char_of_eq_iff apostrophe_def)

lemma key_close_bang:
  "dedupe_key \<lparr>el_tag = ''button'', el_text = ''Close!'', el_x = 700, el_y = 900\<rparr> = ''close!''"
  by (simp add: dedupe_key_def trim_def toLowerCase_def lower_char_def is_space_def
      char_of_eq_iff)

theorem clickPopups_normalized_text_counterexample:
  "(\<forall>collate. findMatchingClickableElements collate
       [(button_at ''Close this window'' 500 60)\<lparr>tagName := ''A''\<rparr>,
        button_at ''Close'' 100 40, button_at ''Close!'' 700 900] SEARCH_TERMS
     = Some [el_close_window, el_close_1,
             \<lparr>el_tag = ''button'', el_text = ''Close!'', el_x = 700, el_y = 900\<rparr>])
   \<and> normalize ''Close'' = normalize ''Close!''
   \<and> dedupe_loop [el_close_window, el_close_1,
        \<lparr>el_tag = ''button'', el_text = ''Close!'', el_x = 700, el_y = 900\<rparr>] {} []
       = [el_close_window, el_close_1,
          \<lparr>el_tag = ''button'', el_text = ''Close!'', el_x = 700, el_y = 900\<rparr>]
   \<and> el_text el_close_1 = ''Close''
   \<and> snd (clickPopups no_call_rejects remove_clicked sample_page
        [el_close_window, el_close_1,
         \<lparr>el_tag = ''button'', el_text = ''Close!'', el_x = 700, el_y = 900\<rparr>]) = []"
proof -
  have d: "dedupe_loop [el_close_window, el_close_1,
        \<lparr>el_tag = ''button'', el_text = ''Close!'', el_x = 700, el_y = 900\<rparr>] {} []
       = [el_close_window, el_close_1,
          \<lparr>el_tag = ''button'', el_text = ''Close!'', el_x = 700, el_y = 900\<rparr>]"
    by (simp add: key_evals key_close_bang)
  have t: "el_text el_close_1 = ''Close''"
    by (simp add: el_close_1_def)
  have c: "snd (clickPopups no_call_rejects remove_clicked sample_page
        [el_close_window, el_close_1,
         \<lparr>el_tag = ''button'', el_text = ''Close!'', el_x = 700, el_y = 900\<rparr>]) = []"
    unfolding clickPopups_take d by (simp add: el_close_window_def)
  show ?thesis
    using matcher_close_buttons d t c by (simp add: normalize_close)
qed



subsection \<open>The archive identity\<close>

lemma dropWhile_id: "(xs = [] \<or> \<not> P (hd xs)) \<Longrightarrow> dropWhile P xs = xs"
  by (cases xs) auto

lemma hd_dropWhile_not: "dropWhile P xs = [] \<or> \<not> P (hd (dropWhile P xs))"
  by (metis hd_dropWhile)

lemma last_dropWhile: "dropWhile P xs \<noteq> [] \<Longrightarrow> last (dropWhile P xs) = last xs"
  by (induction xs) (auto split: if_splits)

lemma trim_fixed:
  assumes "s = [] \<or> (\<not> is_space (hd s) \<and> \<not> is_space (last s))"
  shows "trim s = s"
proof (cases "s = []")
  case True
  then show ?thesis by (simp add: trim_def)
next
  case False
  have 1: "dropWhile is_space s = s"
    using assms False by (simp add: dropWhile_id)
  have "\<not> is_space (hd (rev s))"
    using assms False by (simp add: hd_rev)
  then have 2: "dropWhile is_space (rev s) = rev s"
    by (simp add: dropWhile_id)
  show ?thesis by (simp add: trim_def 1 2)
qed

lemma trim_ends: "trim s = [] \<or> (\<not> is_space (hd (trim s)) \<and> \<not> is_space (last (trim s)))"
proof (cases "trim s = []")
  case True
  then show ?thesis by simp
next
  case False
  define a where "a = dropWhile is_space s"
  define b where "b = dropWhile is_space (rev a)"
  have t: "trim s = rev b" by (simp add: trim_def a_def b_def)
  have b: "b \<noteq> []" using False t by simp
  have a: "a \<noteq> []"
  proof
    assume "a = []"
    then have "b = []" by (simp add: b_def)
    with b show False by simp
  qed
  have "\<not> is_space (hd b)"
    using b hd_dropWhile_not [of is_space "rev a"] unfolding b_def by blast
  then have l: "\<not> is_space (last (trim s))"
    using b t by (simp add: last_rev)
  have "last b = last (rev a)"
    using b unfolding b_def by (rule last_dropWhile)
  also have "\<dots> = hd a" using a by (simp add: last_rev)
  finally have "hd (trim s) = hd a"
    using b t by (simp add: hd_rev)
  moreover have "\<not> is_space (hd a)"
    using a hd_dropWhile_not [of is_space s] unfolding a_def by blast
  ultimately show ?thesis using l by simp
qed

lemma trim_idem: "trim (trim s) = trim s"
  using trim_ends [of s] by (rule trim_fixed)

lemma hex_digit_in: "hex_digit n \<in> set ''0123456789abcdef''"
proof -
  have "n mod 16 < length ''0123456789abcdef''" by simp
  then show ?thesis unfolding hex_digit_def by (rule nth_mem)
qed

lemma md5Hash_8: "length (md5Hash md5 s 8) = 8 \<and> set (md5Hash md5 s 8) \<subseteq> set ''0123456789abcdef''"
proof -
  have "length (digest_hex (md5 s)) = 32" by (simp add: digest_hex_def)
  then have l: "length (md5Hash md5 s 8) = 8" by (simp add: md5Hash_def)
  have "set (digest_hex (md5 s)) \<subseteq> set ''0123456789abcdef''"
    unfolding digest_hex_def using hex_digit_in by auto
  then have "set (md5Hash md5 s 8) \<subseteq> set ''0123456789abcdef''"
    unfolding md5Hash_def using set_take_subset by fast
  with l show ?thesis by simp
qed

lemma cleared:
  "query (set_search_empty (set_hash_empty p)) = None"
  "fragment (set_search_empty (set_hash_empty p)) = None"
  "opaque_path (set_search_empty (set_hash_empty p)) = opaque_path p"
  by (simp_all add: set_search_empty_def set_hash_empty_def strip_opaque_def)

lemma cleared_idem:
  "set_search_empty (set_hash_empty (set_search_empty (set_hash_empty p)))
     = set_search_empty (set_hash_empty p)"
  by (simp add: set_search_empty_def set_hash_empty_def strip_opaque_def)

lemma cleared_same:
  "core p = core p' \<Longrightarrow> opaque_path p = opaque_path p' \<Longrightarrow>
   href (set_search_empty (set_hash_empty p)) = href (set_search_empty (set_hash_empty p'))"
  by (simp add: set_search_empty_def set_hash_empty_def strip_opaque_def href_def)

lemma normalizeUrl_Some:
  "parse (trim s) = Some p \<Longrightarrow> normalizeUrl parse s = href (set_search_empty (set_hash_empty p))"
  by (simp add: normalizeUrl_def normalizeUrl_try_def new_URL_def)

lemma normalizeUrl_None:
  "parse (trim s) = None \<Longrightarrow> normalizeUrl parse s = trim s"
  by (simp add: normalizeUrl_def normalizeUrl_try_def new_URL_def)

lemma normalizeUrl_twice:
  assumes "url_roundtrip parse"
  shows "normalizeUrl parse (normalizeUrl parse s) = normalizeUrl parse s"
proof (cases "parse (trim s)")
  case None
  then have n: "normalizeUrl parse s = trim s" by (rule normalizeUrl_None)
  from None have "parse (trim (trim s)) = None" by (simp add: trim_idem)
  then have "normalizeUrl parse (trim s) = trim (trim s)" by (rule normalizeUrl_None)
  with n show ?thesis by (simp add: trim_idem)
next
  case (Some p)
  let ?n = "set_search_empty (set_hash_empty p)"
  have n: "normalizeUrl parse s = href ?n" using Some by (rule normalizeUrl_Some)
  have t: "trim (href ?n) = href ?n" and r: "parse (href ?n) = Some ?n"
    using assms Some unfolding url_roundtrip_def by blast+
  have "parse (trim (href ?n)) = Some ?n" using t r by simp
  then have "normalizeUrl parse (href ?n) = href (set_search_empty (set_hash_empty ?n))"
    by (rule normalizeUrl_Some)
  with n show ?thesis by (simp add: cleared_idem)
qed


lemma prefix_takeWhile:
  "prefix xs s \<Longrightarrow> \<forall>x \<in> set xs. P x \<Longrightarrow> prefix xs (takeWhile P s)"
  by (auto simp: prefix_def takeWhile_append2)

lemma no_space_trim: "filter is_space s = [] \<Longrightarrow> trim s = s"
proof (rule trim_fixed)
  assume h: "filter is_space s = []"
  show "s = [] \<or> (\<not> is_space (hd s) \<and> \<not> is_space (last s))"
  proof (cases "s = []")
    case True
    then show ?thesis by simp
  next
    case False
    then have "hd s \<in> set s" "last s \<in> set s" by simp_all
    with h show ?thesis by (auto simp: filter_empty_conv)
  qed
qed

lemma simple_ok_takeWhile:
  assumes "simple_ok s"
  shows "simple_ok (takeWhile (\<lambda>c. c \<noteq> CHR ''?'' \<and> c \<noteq> CHR ''#'') s)"
proof -
  let ?P = "\<lambda>c. c \<noteq> CHR ''?'' \<and> c \<noteq> CHR ''#''"
  have pre: "prefix ''http://'' s" and ns: "filter is_space s = []"
    using assms unfolding simple_ok_def by blast+
  have "\<forall>x \<in> set ''http://''. ?P x" by simp
  with pre have pc: "prefix ''http://'' (takeWhile ?P s)"
    by (rule prefix_takeWhile)
  have "set (takeWhile ?P s) \<subseteq> set s" by (auto dest: set_takeWhileD)
  then have "filter is_space (takeWhile ?P s) = []"
    using ns unfolding filter_empty_conv by blast
  with pc show ?thesis unfolding simple_ok_def by blast
qed

lemma simple_parse_core:
  assumes "simple_ok c" and "\<forall>x \<in> set c. x \<noteq> CHR ''?'' \<and> x \<noteq> CHR ''#''"
  shows "simple_parse c = Some \<lparr>core = c, opaque_path = False, query = None, fragment = None\<rparr>"
proof -
  have tw: "takeWhile (\<lambda>c. c \<noteq> CHR ''?'' \<and> c \<noteq> CHR ''#'') c = c"
    using assms(2) by (simp only: takeWhile_eq_all_conv)
  have dw: "dropWhile (\<lambda>c. c \<noteq> CHR ''?'' \<and> c \<noteq> CHR ''#'') c = []"
    using assms(2) by (simp only: dropWhile_eq_Nil_conv)
  show ?thesis
    unfolding simple_parse_def Let_def tw dw using assms(1) by simp
qed

lemma simple_parse_Some:
  assumes "simple_parse s = Some p"
  shows "simple_ok s \<and> core p = takeWhile (\<lambda>c. c \<noteq> CHR ''?'' \<and> c \<noteq> CHR ''#'') s
         \<and> opaque_path p = False"
proof (cases "simple_ok s")
  case True
  with assms show ?thesis by (auto simp: simple_parse_def Let_def)
next
  case False
  with assms show ?thesis by (simp add: simple_parse_def)
qed

lemma simple_parse_roundtrip: "url_roundtrip simple_parse"
  unfolding url_roundtrip_def
proof (intro allI impI)
  fix s p
  assume h: "simple_parse s = Some p"
  define c where "c = takeWhile (\<lambda>c. c \<noteq> CHR ''?'' \<and> c \<noteq> CHR ''#'') s"
  have ok: "simple_ok s" and cp: "core p = c" and o: "opaque_path p = False"
    using simple_parse_Some [OF h] unfolding c_def by blast+
  let ?n = "set_search_empty (set_hash_empty p)"
  have n: "?n = \<lparr>core = c, opaque_path = False, query = None, fragment = None\<rparr>"
    using cp o by (simp add: set_search_empty_def set_hash_empty_def strip_opaque_def)
  have hr: "href ?n = c" unfolding n by (simp add: href_def)
  have okc: "simple_ok c" unfolding c_def using ok by (rule simple_ok_takeWhile)
  have all: "\<forall>x \<in> set c. x \<noteq> CHR ''?'' \<and> x \<noteq> CHR ''#''"
    unfolding c_def by (auto dest: set_takeWhileD)
  have sp: "simple_parse c = Some \<lparr>core = c, opaque_path = False, query = None, fragment = None\<rparr>"
    using okc all by (rule simple_parse_core)
  have "filter is_space c = []" using okc unfolding simple_ok_def by blast
  then have "trim c = c" by (rule no_space_trim)
  then show "trim (href ?n) = href ?n \<and> simple_parse (href ?n) = Some ?n"
    unfolding hr unfolding n using sp by simp
qed

text \<open>
  C7. On a platform whose parser has the round-trip property, \<open>normalizeUrl\<close> is idempotent
  on every string; for a string that parses, the result is the URL printed with neither
  query nor fragment, and it parses to exactly that URL; and two strings whose parsed URLs
  differ only in query and fragment get the same archive id for the same title.
  \<open>makeArchiveId\<close> is a function of the URL and the title (it reads no clock and no random
  source), so equal arguments give equal ids.
\<close>

theorem normalizeUrl_idempotent:
  assumes "url_roundtrip parse"
  shows "normalizeUrl parse (normalizeUrl parse u) = normalizeUrl parse u
     \<and> (\<forall>p. parse (trim u) = Some p \<longrightarrow>
          (\<exists>n. normalizeUrl parse u = href n \<and> query n = None \<and> fragment n = None
               \<and> parse (normalizeUrl parse u) = Some n))
     \<and> (\<forall>u' p p'. parse (trim u) = Some p \<and> parse (trim u') = Some p'
            \<and> core p = core p' \<and> opaque_path p = opaque_path p' \<longrightarrow>
          makeArchiveId parse md5 u title = makeArchiveId parse md5 u' title)"
proof -
  have a: "normalizeUrl parse (normalizeUrl parse u) = normalizeUrl parse u"
    using assms by (rule normalizeUrl_twice)
  have b: "\<exists>n. normalizeUrl parse u = href n \<and> query n = None \<and> fragment n = None
               \<and> parse (normalizeUrl parse u) = Some n" if "parse (trim u) = Some p" for p
  proof -
    let ?n = "set_search_empty (set_hash_empty p)"
    have "normalizeUrl parse u = href ?n" using that by (rule normalizeUrl_Some)
    moreover have "parse (href ?n) = Some ?n"
      using assms that unfolding url_roundtrip_def by blast
    ultimately show ?thesis using cleared(1,2) [of p] by auto
  qed
  have c: "makeArchiveId parse md5 u title = makeArchiveId parse md5 u' title"
    if "parse (trim u) = Some p" "parse (trim u') = Some p'" "core p = core p'"
      "opaque_path p = opaque_path p'" for u' p p'
    using that by (simp add: makeArchiveId_def normalizeUrl_Some cleared_same [of p p'])
  show ?thesis using a b c by blast
qed

lemma simple_parse_a:
  "simple_parse ''http://example.com/a?utm=1#top''
     = Some \<lparr>core = ''http://example.com/a'', opaque_path = False, query = Some ''utm=1'',
             fragment = Some ''top''\<rparr>"
  "simple_parse ''http://example.com/a?ref=x''
     = Some \<lparr>core = ''http://example.com/a'', opaque_path = False, query = Some ''ref=x'',
             fragment = None\<rparr>"
  "simple_parse ''http://example.com/a''
     = Some \<lparr>core = ''http://example.com/a'', opaque_path = False, query = None,
             fragment = None\<rparr>"
  by (simp_all add: simple_parse_def simple_ok_def is_space_def)

lemma trim_a:
  "trim ''  http://example.com/a?utm=1#top '' = ''http://example.com/a?utm=1#top''"
  "trim ''http://example.com/a?ref=x'' = ''http://example.com/a?ref=x''"
  "trim ''not a url '' = ''not a url''"
  by (simp_all add: trim_def is_space_def)

theorem normalizeUrl_idempotent_witness:
  "normalizeUrl simple_parse ''  http://example.com/a?utm=1#top '' = ''http://example.com/a''
   \<and> normalizeUrl simple_parse ''http://example.com/a'' = ''http://example.com/a''
   \<and> makeArchiveId simple_parse sample_digest ''  http://example.com/a?utm=1#top '' ''a''
       = makeArchiveId simple_parse sample_digest ''http://example.com/a?ref=x'' ''a''"
proof -
  have n: "normalizeUrl simple_parse ''  http://example.com/a?utm=1#top '' = ''http://example.com/a''"
    using simple_parse_a(1)
    by (simp add: normalizeUrl_def normalizeUrl_try_def new_URL_def trim_a
        set_search_empty_def set_hash_empty_def strip_opaque_def href_def)
  show ?thesis
    using normalizeUrl_idempotent [OF simple_parse_roundtrip,
        of "''  http://example.com/a?utm=1#top ''" sample_digest "''a''"]
      n simple_parse_a trim_a
    by simp
qed

text \<open>
  C10. Whatever the parser does, the \<open>catch\<close> of \<open>normalizeUrl\<close> turns the one exception of
  its \<open>try\<close> block into a value: a string that does not parse comes back trimmed. The
  archive id is the slug of the title, an underscore and eight characters out of
  \<open>0123456789abcdef\<close>; it is never empty; and the slug of the empty title is \<open>untitled\<close>.
\<close>

theorem makeArchiveId_total:
  "(case normalizeUrl_try parse u of
      Inl e \<Rightarrow> parse (trim u) = None \<and> normalizeUrl parse u = trim u
    | Inr r \<Rightarrow> normalizeUrl parse u = r)
   \<and> (parse (trim u) = None \<longrightarrow> normalizeUrl parse u = trim u)
   \<and> (\<exists>h. makeArchiveId parse md5 u title = slugifyTitle title @ ''_'' @ h
          \<and> length h = 8 \<and> set h \<subseteq> set ''0123456789abcdef'')
   \<and> makeArchiveId parse md5 u title \<noteq> []
   \<and> slugifyTitle [] = ''untitled''"
proof -
  have a: "(case normalizeUrl_try parse u of
      Inl e \<Rightarrow> parse (trim u) = None \<and> normalizeUrl parse u = trim u
    | Inr r \<Rightarrow> normalizeUrl parse u = r)"
    by (simp add: normalizeUrl_def normalizeUrl_try_def new_URL_def split: option.splits)
  have b: "parse (trim u) = None \<longrightarrow> normalizeUrl parse u = trim u"
    by (simp add: normalizeUrl_None)
  have c: "\<exists>h. makeArchiveId parse md5 u title = slugifyTitle title @ ''_'' @ h
          \<and> length h = 8 \<and> set h \<subseteq> set ''0123456789abcdef''"
    using md5Hash_8 [of md5 "normalizeUrl parse u"]
    by (intro exI [of _ "md5Hash md5 (normalizeUrl parse u) 8"]) (simp add: makeArchiveId_def)
  have d: "makeArchiveId parse md5 u title \<noteq> []"
    by (simp add: makeArchiveId_def)
  have e: "slugifyTitle [] = ''untitled''"
    by (simp add: slugifyTitle_def)
  show ?thesis using a b c d e by blast
qed

lemma slug_examples:
  "slugifyTitle ''Hello, World!! -- 2025'' = ''hello-world----2025''"
  "slugifyTitle ''!!!'' = []"
  by (simp_all add: slugifyTitle_def strip_dashes_def toLowerCase_def lower_char_def slug_char_def
      char_of_eq_iff)

lemma digest_example: "md5Hash sample_digest s 8 = ''d41d8cd9''"
  by (simp add: md5Hash_def digest_hex_def sample_digest_def hex_digit_def upt_rec)

theorem makeArchiveId_total_witness:
  "normalizeUrl simple_parse ''not a url '' = ''not a url''
   \<and> makeArchiveId simple_parse sample_digest ''not a url '' [] = ''untitled_d41d8cd9''"
proof -
  have p: "simple_parse (trim ''not a url '') = None"
    by (simp add: trim_a simple_parse_def simple_ok_def)
  have "makeArchiveId simple_parse sample_digest ''not a url '' [] = ''untitled_d41d8cd9''"
    by (simp add: makeArchiveId_def digest_example slugifyTitle_def)
  then show ?thesis
    using makeArchiveId_total [of simple_parse "''not a url ''" sample_digest "[]"] p
    by (simp add: trim_a)
qed



subsection \<open>The term rule\<close>

lemmas char_evals = is_space_def is_word_def lower_char_def toLowerCase_def trim_def
  char_of_eq_iff apostrophe_def


lemma last_opt_Nil [simp]: "last_opt prev [] = prev"
  by (simp add: last_opt_def)

lemma last_opt_Cons [simp]: "last_opt prev (d # m) = last_opt (Some d) m"
  by (simp add: last_opt_def)

lemma last_opt_append: "last_opt (last_opt prev a) b = last_opt prev (a @ b)"
  by (simp add: last_opt_def)

lemma elastic_Lit:
  "elastic (Lit c # ps) m \<longleftrightarrow> (\<exists>d r. m = d # r \<and> lower_char d = lower_char c \<and> elastic ps r)"
  by (rule elastic.simps)

lemma elastic_Gap:
  "elastic (Gap # ps) m \<longleftrightarrow>
     (\<exists>sp r. m = sp @ r \<and> sp \<noteq> [] \<and> (\<forall>x \<in> set sp. is_space x) \<and> elastic ps r)"
  by (rule elastic.simps)

lemma elastic_LitI:
  "lower_char d = lower_char c \<Longrightarrow> elastic ps r \<Longrightarrow> elastic (Lit c # ps) (d # r)"
  unfolding elastic_Lit by blast

lemma elastic_GapI:
  "sp \<noteq> [] \<Longrightarrow> \<forall>x \<in> set sp. is_space x \<Longrightarrow> elastic ps r \<Longrightarrow> elastic (Gap # ps) (sp @ r)"
  unfolding elastic_Gap by blast

declare elastic.simps(2,3) [simp del]

lemma match_items_sound:
  "(p, r) \<in> set (match_items ps prev s) \<Longrightarrow>
     \<exists>mid. s = mid @ r \<and> elastic ps mid \<and> p = last_opt prev mid"
proof (induction ps prev s rule: match_items.induct)
  case (1 prev s)
  then show ?case by simp
next
  case (2 c ps prev)
  then show ?case by simp
next
  case (3 c ps prev d s)
  have eq: "lower_char d = lower_char c"
  proof (rule ccontr)
    assume "lower_char d \<noteq> lower_char c"
    with "3.prems" show False by simp
  qed
  with "3.prems" have m: "(p, r) \<in> set (match_items ps (Some d) s)"
    by simp
  from "3.IH" [OF eq m] obtain mid where
    a: "s = mid @ r" "elastic ps mid" "p = last_opt (Some d) mid" by blast
  have "elastic (Lit c # ps) (d # mid)"
    using eq a(2) by (rule elastic_LitI)
  with a(1,3) have "d # s = (d # mid) @ r \<and> elastic (Lit c # ps) (d # mid)
      \<and> p = last_opt prev (d # mid)" by simp
  then show ?case by (rule exI)
next
  case (4 ps prev)
  then show ?case by simp
next
  case (5 ps prev d s)
  have sp: "is_space d"
  proof (rule ccontr)
    assume "\<not> is_space d"
    with "5.prems" show False by simp
  qed
  with "5.prems" have m: "(p, r) \<in> set (match_items ps (Some d) s)
            \<or> (p, r) \<in> set (match_items (Gap # ps) (Some d) s)"
    by simp
  from m show ?case
  proof
    assume "(p, r) \<in> set (match_items ps (Some d) s)"
    from "5.IH"(1) [OF sp this] obtain mid where
      a: "s = mid @ r" "elastic ps mid" "p = last_opt (Some d) mid" by blast
    have "elastic (Gap # ps) ([d] @ mid)"
      by (rule elastic_GapI) (simp_all add: sp a(2))
    with a(1,3) have "d # s = (d # mid) @ r \<and> elastic (Gap # ps) (d # mid)
        \<and> p = last_opt prev (d # mid)" by simp
    then show ?thesis by (rule exI)
  next
    assume "(p, r) \<in> set (match_items (Gap # ps) (Some d) s)"
    from "5.IH"(2) [OF sp this] obtain mid where
      a: "s = mid @ r" "elastic (Gap # ps) mid" "p = last_opt (Some d) mid" by blast
    from a(2) obtain sp' r' where
      b: "mid = sp' @ r'" "sp' \<noteq> []" "\<forall>x \<in> set sp'. is_space x" "elastic ps r'"
      unfolding elastic_Gap by blast
    have "elastic (Gap # ps) ((d # sp') @ r')"
      by (rule elastic_GapI) (simp_all add: sp b)
    then have "elastic (Gap # ps) (d # mid)" using b(1) by simp
    with a(1,3) have "d # s = (d # mid) @ r \<and> elastic (Gap # ps) (d # mid)
        \<and> p = last_opt prev (d # mid)" by simp
    then show ?thesis by (rule exI)
  qed
qed

lemma gap_run:
  assumes "sp \<noteq> []" and "\<forall>x \<in> set sp. is_space x"
    and "(q, r) \<in> set (match_items ps (Some (last sp)) rest)"
  shows "(q, r) \<in> set (match_items (Gap # ps) prev (sp @ rest))"
  using assms
proof (induction sp arbitrary: prev)
  case Nil
  then show ?case by simp
next
  case (Cons d sp)
  show ?case
  proof (cases "sp = []")
    case True
    with Cons.prems show ?thesis by simp
  next
    case False
    with Cons.prems have "(q, r) \<in> set (match_items ps (Some (last sp)) rest)"
      and "\<forall>x \<in> set sp. is_space x" by simp_all
    with False have "(q, r) \<in> set (match_items (Gap # ps) (Some d) (sp @ rest))"
      using Cons.IH by blast
    with Cons.prems show ?thesis by simp
  qed
qed

lemma match_items_complete:
  "elastic ps mid \<Longrightarrow> (last_opt prev mid, r) \<in> set (match_items ps prev (mid @ r))"
proof (induction ps arbitrary: prev mid)
  case Nil
  then show ?case by simp
next
  case (Cons a ps)
  show ?case
  proof (cases a)
    case (Lit c)
    with Cons.prems have "elastic (Lit c # ps) mid" by simp
    then obtain d m where
      a: "mid = d # m" "lower_char d = lower_char c" "elastic ps m"
      unfolding elastic_Lit by blast
    from Cons.IH [OF a(3), of "Some d"] a Lit show ?thesis by simp
  next
    case Gap
    with Cons.prems have "elastic (Gap # ps) mid" by simp
    then obtain sp m where
      a: "mid = sp @ m" "sp \<noteq> []" "\<forall>x \<in> set sp. is_space x" "elastic ps m"
      unfolding elastic_Gap by blast
    have "(last_opt (Some (last sp)) m, r) \<in> set (match_items ps (Some (last sp)) (m @ r))"
      using Cons.IH [OF a(4)] .
    then have "(last_opt (Some (last sp)) m, r) \<in> set (match_items (Gap # ps) prev (sp @ m @ r))"
      using gap_run [OF a(2) a(3)] by blast
    moreover have "last_opt (Some (last sp)) m = last_opt prev (sp @ m)"
      using a(2) by (simp add: last_opt_def)
    ultimately show ?thesis using a(1) Gap by simp
  qed
qed

lemma match_at_iff:
  "match_at ps prev s \<longleftrightarrow>
     at_boundary prev s \<and>
     (\<exists>mid post. s = mid @ post \<and> elastic ps mid \<and> at_boundary (last_opt prev mid) post)"
proof -
  have "list_ex (\<lambda>(p, r). at_boundary p r) (match_items ps prev s) \<longleftrightarrow>
        (\<exists>mid post. s = mid @ post \<and> elastic ps mid \<and> at_boundary (last_opt prev mid) post)"
    (is "?l \<longleftrightarrow> ?r")
  proof
    assume ?l
    then obtain p r where "(p, r) \<in> set (match_items ps prev s)" "at_boundary p r"
      by (auto simp: list_ex_iff)
    with match_items_sound [of p r ps prev s] show ?r by blast
  next
    assume ?r
    then obtain mid post where
      a: "s = mid @ post" "elastic ps mid" "at_boundary (last_opt prev mid) post" by blast
    from match_items_complete [OF a(2), of prev post] a show ?l
      by (auto simp: list_ex_iff)
  qed
  then show ?thesis by (simp add: match_at_def)
qed

lemma regex_search_iff:
  "regex_search ps prev s \<longleftrightarrow>
     (\<exists>pre mid post. s = pre @ mid @ post \<and> elastic ps mid
        \<and> at_boundary (last_opt prev pre) (mid @ post)
        \<and> at_boundary (last_opt prev (pre @ mid)) post)"
proof (induction s arbitrary: prev)
  case Nil
  show ?case by (auto simp: match_at_iff)
next
  case (Cons c s)
  note IH = Cons.IH
  show ?case
  proof
    assume "regex_search ps prev (c # s)"
    then have "match_at ps prev (c # s) \<or> regex_search ps (Some c) s" by simp
    then show "\<exists>pre mid post. c # s = pre @ mid @ post \<and> elastic ps mid
        \<and> at_boundary (last_opt prev pre) (mid @ post)
        \<and> at_boundary (last_opt prev (pre @ mid)) post"
    proof
      assume "match_at ps prev (c # s)"
      then obtain mid post where
        a: "at_boundary prev (c # s)" "c # s = mid @ post" "elastic ps mid"
          "at_boundary (last_opt prev mid) post"
        unfolding match_at_iff by blast
      have "c # s = [] @ mid @ post \<and> elastic ps mid
        \<and> at_boundary (last_opt prev []) (mid @ post)
        \<and> at_boundary (last_opt prev ([] @ mid)) post"
        using a by simp
      then show ?thesis by blast
    next
      assume "regex_search ps (Some c) s"
      then obtain pre mid post where
        a: "s = pre @ mid @ post" "elastic ps mid"
          "at_boundary (last_opt (Some c) pre) (mid @ post)"
          "at_boundary (last_opt (Some c) (pre @ mid)) post"
        unfolding IH by blast
      have "c # s = (c # pre) @ mid @ post \<and> elastic ps mid
        \<and> at_boundary (last_opt prev (c # pre)) (mid @ post)
        \<and> at_boundary (last_opt prev ((c # pre) @ mid)) post"
        using a by simp
      then show ?thesis by blast
    qed
  next
    assume "\<exists>pre mid post. c # s = pre @ mid @ post \<and> elastic ps mid
        \<and> at_boundary (last_opt prev pre) (mid @ post)
        \<and> at_boundary (last_opt prev (pre @ mid)) post"
    then obtain pre mid post where
      h: "c # s = pre @ mid @ post" "elastic ps mid"
        "at_boundary (last_opt prev pre) (mid @ post)"
        "at_boundary (last_opt prev (pre @ mid)) post" by blast
    show "regex_search ps prev (c # s)"
    proof (cases pre)
      case Nil
      with h have "at_boundary prev (c # s)" "c # s = mid @ post"
        "at_boundary (last_opt prev mid) post" by simp_all
      with h(2) have "match_at ps prev (c # s)"
        unfolding match_at_iff by blast
      then show ?thesis by simp
    next
      case (Cons c' pre')
      with h have s: "s = pre' @ mid @ post" and c: "c' = c" by simp_all
      have "at_boundary (last_opt (Some c) pre') (mid @ post)"
        "at_boundary (last_opt (Some c) (pre' @ mid)) post"
        using h(3,4) Cons c by simp_all
      with s h(2) have "regex_search ps (Some c) s"
        unfolding IH by blast
      then show ?thesis by simp
    qed
  qed
qed

lemma at_boundary_word: "at_boundary (last_opt None pre) rest = word_boundary pre rest"
  by (cases rest) (auto simp: at_boundary_def word_boundary_def last_opt_def)

lemma regex_test_iff: "regex_test (phrase_items False t) txt \<longleftrightarrow> phrase_occurs t txt"
  by (simp add: regex_test_def regex_search_iff phrase_occurs_def at_boundary_word)


lemma lower_char_idem: "lower_char (lower_char c) = lower_char c"
proof -
  define n where "n = (of_char c :: nat)"
  show ?thesis
  proof (cases "(65 \<le> n \<and> n \<le> 90) \<or> (192 \<le> n \<and> n \<le> 222 \<and> n \<noteq> 215)")
    case True
    then have l: "lower_char c = char_of (n + 32)"
      by (simp add: lower_char_def n_def)
    from True have "of_char (char_of (n + 32)) = n + 32" by auto
    with True show ?thesis
      unfolding l by (auto simp: lower_char_def Let_def)
  next
    case False
    then have "lower_char c = c" unfolding lower_char_def n_def Let_def by auto
    then show ?thesis by simp
  qed
qed

lemma lower_char_syntax: "is_regex_syntax (lower_char c) \<Longrightarrow> is_regex_syntax c"
proof -
  assume h: "is_regex_syntax (lower_char c)"
  define n where "n = (of_char c :: nat)"
  show ?thesis
  proof (cases "(65 \<le> n \<and> n \<le> 90) \<or> (192 \<le> n \<and> n \<le> 222 \<and> n \<noteq> 215)")
    case True
    then have l: "lower_char c = char_of (n + 32)"
      by (simp add: lower_char_def n_def)
    from True have "take_bit 8 (n + 32) = n + 32"
      by (auto simp: take_bit_eq_mod)
    with h True show ?thesis
      unfolding l by (auto simp: is_regex_syntax_def char_of_eq_iff)
  next
    case False
    then have "lower_char c = c" unfolding lower_char_def n_def Let_def by auto
    with h show ?thesis by simp
  qed
qed

lemma set_trim: "set (trim s) \<subseteq> set s"
proof -
  have "set (trim s) \<subseteq> set (rev (dropWhile is_space s))"
    unfolding trim_def using set_dropWhileD by fastforce
  also have "\<dots> \<subseteq> set s" using set_dropWhileD by fastforce
  finally show ?thesis .
qed

lemma lowered_term:
  "toLowerCase (trim (toLowerCase term)) = trim (toLowerCase term)"
proof -
  have "\<forall>c \<in> set (trim (toLowerCase term)). lower_char c = c"
    using set_trim [of "toLowerCase term"] by (auto simp: toLowerCase_def lower_char_idem)
  then show ?thesis
    unfolding toLowerCase_def by (simp add: map_idI)
qed

lemma plain_term:
  assumes "\<not> list_ex is_regex_syntax term"
  shows "term_pattern (trim (toLowerCase term)) = Some (phrase_items False (trim (toLowerCase term)))"
proof -
  have "\<forall>c \<in> set (trim (toLowerCase term)). \<not> is_regex_syntax c"
    using set_trim [of "toLowerCase term"] assms lower_char_syntax
    by (auto simp: toLowerCase_def list_ex_iff)
  then show ?thesis by (simp add: term_pattern_def list_ex_iff)
qed

lemma split_ws_not_Nil: "split_ws s \<noteq> []"
  by (induction s) (auto split: list.splits)

lemma split_ws_chars: "w \<in> set (split_ws s) \<Longrightarrow> c \<in> set w \<Longrightarrow> c \<in> set s \<and> \<not> is_space c"
proof (induction s arbitrary: w)
  case Nil
  then show ?case by simp
next
  case (Cons d ds)
  note IH = Cons.IH
  show ?case
  proof (cases "is_space d")
    case True
    with Cons.prems have "w \<in> set (split_ws ds)"
      by (auto split: if_splits)
    from IH [OF this Cons.prems(2)] show ?thesis by simp
  next
    case False
    obtain v vs where v: "split_ws ds = v # vs"
      using split_ws_not_Nil [of ds] by (cases "split_ws ds") auto
    with False Cons.prems(1) have "w = d # v \<or> w \<in> set vs" by simp
    then show ?thesis
    proof
      assume w: "w = d # v"
      show ?thesis
      proof (cases "c = d")
        case True
        with False show ?thesis by simp
      next
        case False
        with w Cons.prems(2) have "c \<in> set v" by simp
        with IH [of v] v show ?thesis by simp
      qed
    next
      assume "w \<in> set vs"
      with IH [of w] v Cons.prems(2) show ?thesis by simp
    qed
  qed
qed

lemma lower_char_space: "lower_char (CHR '' '') = CHR '' ''"
  by (simp add: lower_char_def)

lemma normalize_chars:
  assumes "c \<in> set (normalize text)"
  shows "(is_word c \<or> is_space c \<or> c = apostrophe) \<and> lower_char c = c"
proof -
  have "c \<in> set (map (\<lambda>c. if is_word c \<or> is_space c \<or> c = apostrophe then c else CHR '' '')
            (map (\<lambda>c. if c = apostrophe then apostrophe else c) (toLowerCase text)))"
    using assms set_trim unfolding normalize_def by blast
  then obtain x where x: "x \<in> set text"
      and c: "c = (if is_word (lower_char x) \<or> is_space (lower_char x) \<or> lower_char x = apostrophe
                   then lower_char x else CHR '' '')"
    by (auto simp: toLowerCase_def)
  show ?thesis
  proof (cases "is_word (lower_char x) \<or> is_space (lower_char x) \<or> lower_char x = apostrophe")
    case True
    with c have "c = lower_char x" by simp
    with True show ?thesis by (simp add: lower_char_idem)
  next
    case False
    with c have "c = CHR '' ''" by simp
    then show ?thesis by (simp add: lower_char_space is_space_def)
  qed
qed

lemma lower_plain_iff: "lower_plain s \<longleftrightarrow> (\<forall>c \<in> set s. term_char c \<and> lower_char c = c)"
  by (simp add: lower_plain_def list_all_iff)

lemma lower_plain_fixed: "lower_plain s \<Longrightarrow> toLowerCase s = s"
  unfolding toLowerCase_def lower_plain_iff by (simp add: map_idI)

lemma token_plain:
  assumes "w \<in> set (split_ws (normalize text))"
  shows "lower_plain w"
  unfolding lower_plain_iff
proof
  fix c assume "c \<in> set w"
  then have "c \<in> set (normalize text) \<and> \<not> is_space c"
    using split_ws_chars [OF assms] by simp
  then show "term_char c \<and> lower_char c = c"
    using normalize_chars [of c "text"] by (auto simp: term_char_def)
qed

lemma term_char_lower: "term_char c \<Longrightarrow> term_char (lower_char c)"
proof -
  assume h: "term_char c"
  define n where "n = (of_char c :: nat)"
  show ?thesis
  proof (cases "(65 \<le> n \<and> n \<le> 90) \<or> (192 \<le> n \<and> n \<le> 222 \<and> n \<noteq> 215)")
    case True
    then have l: "lower_char c = char_of (n + 32)"
      by (simp add: lower_char_def n_def)
    from h have "n \<le> 122"
      unfolding term_char_def is_word_def apostrophe_def Let_def n_def by auto
    with True have "65 \<le> n \<and> n \<le> 90" by simp
    then have "of_char (char_of (n + 32) :: char) = n + 32" by auto
    with \<open>65 \<le> n \<and> n \<le> 90\<close> show ?thesis
      unfolding l by (simp add: term_char_def is_word_def)
  next
    case False
    then have "lower_char c = c" unfolding lower_char_def n_def Let_def by auto
    with h show ?thesis by simp
  qed
qed

lemma term_lower_plain:
  assumes "list_all term_char term"
  shows "lower_plain (trim (toLowerCase term))"
  unfolding lower_plain_iff
proof
  fix c assume "c \<in> set (trim (toLowerCase term))"
  then have "c \<in> set (toLowerCase term)" using set_trim by blast
  then obtain x where "x \<in> set term" "c = lower_char x"
    by (auto simp: toLowerCase_def)
  with assms show "term_char c \<and> lower_char c = c"
    by (simp add: list_all_iff term_char_lower lower_char_idem)
qed

lemma term_char_syntax: "term_char c \<Longrightarrow> \<not> is_regex_syntax c"
  unfolding term_char_def is_word_def is_regex_syntax_def apostrophe_def Let_def
  by auto

lemma term_chars_plain: "list_all term_char term \<Longrightarrow> \<not> list_ex is_regex_syntax term"
  using term_char_syntax by (auto simp: list_all_iff list_ex_iff)

lemma equal_up_to_case_exact: "exact_on_plain equal_up_to_case"
  unfolding exact_on_plain_def equal_up_to_case_def by (simp add: lower_plain_fixed)

lemma SEARCH_TERMS_chars: "list_all (list_all term_char) SEARCH_TERMS"
  by (simp add: SEARCH_TERMS_def term_char_def is_word_def apostrophe_def)

text \<open>
  C4, as amended. In the matcher of find-cancel-elements.js, for every element text and
  every term made of ASCII letters, digits, underscores, apostrophes and spaces (all of
  \<open>SEARCH_TERMS\<close> are such), in a browser whose collation tells apart any two different
  strings of lower-case such characters: a term of at most 3 characters (lower-cased and
  trimmed) matches the normalized text exactly when it equals, up to case, one of the
  pieces of that text split at white space; a longer term matches exactly when it occurs
  in the normalized text as a word-bounded phrase with elastic internal white space.
\<close>

theorem term_rule:
  assumes "exact_on_plain collate" and "list_all term_char term"
  shows "matches_term collate (normalize text) term =
     Some (if length (trim (toLowerCase term)) \<le> 3
           then (\<exists>w \<in> set (split_ws (normalize text)). toLowerCase w = trim (toLowerCase term))
           else phrase_occurs (trim (toLowerCase term)) (normalize text))"
proof -
  have t: "lower_plain (trim (toLowerCase term))"
    using assms(2) by (rule term_lower_plain)
  have "collate w (trim (toLowerCase term)) = (toLowerCase w = trim (toLowerCase term))"
    if "w \<in> set (split_ws (normalize text))" for w
  proof -
    have w: "lower_plain w" using that by (rule token_plain)
    with t assms(1) have "collate w (trim (toLowerCase term)) = (w = trim (toLowerCase term))"
      unfolding exact_on_plain_def by blast
    then show ?thesis using lower_plain_fixed [OF w] by simp
  qed
  then have s: "list_ex (\<lambda>w. collate w (trim (toLowerCase term))) (split_ws (normalize text))
      = (\<exists>w \<in> set (split_ws (normalize text)). toLowerCase w = trim (toLowerCase term))"
    unfolding list_ex_iff by blast
  show ?thesis
    using plain_term [OF term_chars_plain [OF assms(2)]] s
    by (simp add: matches_term_def Let_def regex_test_iff)
qed

lemma normalize_examples:
  "normalize ''OK, got it'' = ''ok  got it''"
  "normalize ''bookmark this'' = ''bookmark this''"
  "normalize ''No thanks!'' = ''no thanks''"
  "normalize ''no thanksgiving'' = ''no thanksgiving''"
  by (simp_all add: normalize_def char_evals)

lemma matches_term_examples:
  "matches_term equal_up_to_case ''ok  got it'' ''ok'' = Some True"
  "matches_term equal_up_to_case ''bookmark this'' ''ok'' = Some False"
  "matches_term equal_up_to_case ''no thanks'' ''no thanks'' = Some True"
  "matches_term equal_up_to_case ''no thanksgiving'' ''no thanks'' = Some False"
  by (simp_all add: matches_term_def term_pattern_def is_regex_syntax_def regex_test_def
      match_at_def at_boundary_def equal_up_to_case_def char_evals)

lemma term_examples:
  "trim (toLowerCase ''no thanks'') = ''no thanks''"
  "trim (toLowerCase ''ok'') = ''ok''"
  "list_all term_char ''no thanks''"
  "list_all term_char ''ok''"
  by (simp_all add: char_evals term_char_def)

lemma split_examples:
  "split_ws ''ok  got it'' = [''ok'', ''got'', ''it'']"
  "split_ws ''bookmark this'' = [''bookmark'', ''this'']"
  by (simp_all add: char_evals)

text \<open>
  The examples of the specification: "no thanks" occurs in "No thanks!" and not in
  "no thanksgiving"; "ok" is a piece of "OK, got it" and not of "bookmark this".
\<close>

theorem term_rule_witness:
  "exact_on_plain equal_up_to_case
   \<and> list_all term_char ''no thanks'' \<and> list_all term_char ''ok''
   \<and> phrase_occurs ''no thanks'' (normalize ''No thanks!'')
   \<and> \<not> phrase_occurs ''no thanks'' (normalize ''no thanksgiving'')
   \<and> (\<exists>w \<in> set (split_ws (normalize ''OK, got it'')). toLowerCase w = ''ok'')
   \<and> \<not> (\<exists>w \<in> set (split_ws (normalize ''bookmark this'')). toLowerCase w = ''ok'')"
proof -
  have a: "phrase_occurs ''no thanks'' (normalize ''No thanks!'')"
    using term_rule [OF equal_up_to_case_exact term_examples(3), of "''No thanks!''"]
    by (simp add: term_examples(1) normalize_examples matches_term_examples)
  have b: "\<not> phrase_occurs ''no thanks'' (normalize ''no thanksgiving'')"
    using term_rule [OF equal_up_to_case_exact term_examples(3), of "''no thanksgiving''"]
    by (simp add: term_examples(1) normalize_examples matches_term_examples)
  have c: "\<exists>w \<in> set (split_ws (normalize ''OK, got it'')). toLowerCase w = ''ok''"
    using term_rule [OF equal_up_to_case_exact term_examples(4), of "''OK, got it''"]
    by (simp add: term_examples(2) normalize_examples matches_term_examples)
  have d: "\<not> (\<exists>w \<in> set (split_ws (normalize ''bookmark this'')). toLowerCase w = ''ok'')"
    using term_rule [OF equal_up_to_case_exact term_examples(4), of "''bookmark this''"]
    by (simp add: term_examples(2) normalize_examples matches_term_examples)
  show ?thesis
    using equal_up_to_case_exact term_examples(3) term_examples(4) a b c d
    by blast
qed

text \<open>
  The claim as stated covers the matcher of integrated.js as well, and there it fails: with
  that file's own terms a button "no thanksgiving" is matched, by the term "no thanks",
  which does not occur in it as a word-bounded phrase.
\<close>

lemma integrated_example:
  "findMatchingClickableElements_integrated [button ''no thanksgiving''] SEARCH_TERMS_integrated
     = [\<lparr>el_tag = ''button'', el_text = ''no thanksgiving'', el_x = 100, el_y = 40\<rparr>]"
  by (simp add: findMatchingClickableElements_integrated_def SEARCH_TERMS_integrated_def
      button_def isClickable_def element_text_def to_match_def char_evals)

lemma no_phrase: "\<not> phrase_occurs ''no thanks'' ''no thanksgiving''"
  unfolding regex_test_iff [symmetric]
  by (simp add: regex_test_def match_at_def at_boundary_def char_evals)

theorem substring_matcher_counterexample:
  "findMatchingClickableElements_integrated [button ''no thanksgiving''] SEARCH_TERMS_integrated
     = [\<lparr>el_tag = ''button'', el_text = ''no thanksgiving'', el_x = 100, el_y = 40\<rparr>]
   \<and> \<not> phrase_occurs ''no thanks'' (normalize ''no thanksgiving'')"
  by (simp add: integrated_example normalize_examples no_phrase)



text \<open>
  The whole scan of find-cancel-elements.js on three buttons: "no thanksgiving" matches no
  term, "Close and sign in" matches "close" and is blacklisted by "sign in", "No thanks!"
  is returned.
\<close>

lemma main_example:
  "findMatchingClickableElements equal_up_to_case
     [button ''no thanksgiving'', button ''Close and sign in'', button ''No thanks!'']
     SEARCH_TERMS
   = Some [\<lparr>el_tag = ''button'', el_text = ''No thanks!'', el_x = 100, el_y = 40\<rparr>]"
  by code_simp

end
